theory Spec2Isabelle
  imports Main "HOL-Library.Word" "HOL-Library.Signed_Division"
begin

unbundle bit_operations_syntax

section \<open>The static machine-code pool of \<^verbatim>\<open>lj_mcode_spool.c\<close>\<close>

text \<open>
  The file is written for 32-bit ARM Android (its header comment; other targets are a
  TODO there), so a pointer and \<^verbatim>\<open>uintptr_t\<close> are \<open>32 word\<close>, \<^verbatim>\<open>unsigned int\<close> is
  \<open>32 word\<close>, and \<^verbatim>\<open>ptrdiff_t\<close> is the signed reading of a \<open>32 word\<close>. Pointers are
  compared as addresses, and arithmetic on \<^verbatim>\<open>void*\<close> is byte arithmetic (GNU C). Values
  of C type \<^verbatim>\<open>int\<close> are HOL integers. C defines no result for an \<^verbatim>\<open>int\<close> product beyond
  \<^verbatim>\<open>INT_MAX\<close>, a pointer sum beyond the address space or a pointer difference beyond
  \<^verbatim>\<open>PTRDIFF_MAX\<close>, and a compiler may assume that they do not happen: where the arguments
  of a call lead to one of them, the model stops with \<open>UndefinedBehaviour\<close> and says
  nothing about what the call does. Unsigned arithmetic wraps around.

  Logging (\<^verbatim>\<open>LOGE\<close>, \<^verbatim>\<open>LOGW\<close>), the mutex and \<^verbatim>\<open>madvise\<close> (whose result is only
  logged) have no effect on the results and are left out. \<^verbatim>\<open>assert0\<close> does not
  depend on the log level: a failed assertion ends the process.
\<close>

subsection \<open>Build-time configuration and the backing region\<close>

record pool_config =
  LJ_ANDROID_MCODE_STATIC_POOL_KB :: int
  static_alloc_pool :: "32 word"

definition STATIC_POOL_SIZE :: "pool_config \<Rightarrow> int" where
  "STATIC_POOL_SIZE c = LJ_ANDROID_MCODE_STATIC_POOL_KB c * 1024"

definition STATIC_POOL_MIN_BLOCK_SIZE_KB :: int where
  "STATIC_POOL_MIN_BLOCK_SIZE_KB = 64"

definition STATIC_POOL_MIN_BLOCK_SIZE :: int where
  "STATIC_POOL_MIN_BLOCK_SIZE = STATIC_POOL_MIN_BLOCK_SIZE_KB * 1024"

definition STATIC_POOL_BLOCK_SIZE_MASK :: int where
  "STATIC_POOL_BLOCK_SIZE_MASK = STATIC_POOL_MIN_BLOCK_SIZE - 1"

text \<open>The file is compiled only when the capacity is positive, so C's truncating
  division of the two positive constants is \<open>div\<close>.\<close>

definition STATIC_POOL_MAX_ENTRIES :: "pool_config \<Rightarrow> int" where
  "STATIC_POOL_MAX_ENTRIES c =
     LJ_ANDROID_MCODE_STATIC_POOL_KB c div STATIC_POOL_MIN_BLOCK_SIZE_KB"

text \<open>\<^verbatim>\<open>sizeof(_static_alloc_pool)\<close>: the pool and one extra block.\<close>

definition sizeof_static_alloc_pool :: "pool_config \<Rightarrow> int" where
  "sizeof_static_alloc_pool c = STATIC_POOL_SIZE c + STATIC_POOL_MIN_BLOCK_SIZE"

text \<open>
  What the compiler and the loader guarantee: the \<^verbatim>\<open>_Static_assert\<close> on the capacity,
  an array size that is an \<^verbatim>\<open>int\<close> constant, and an array that lies in the address
  space, not at address 0, with the address one past its end still representable.
\<close>

definition config_ok :: "pool_config \<Rightarrow> bool" where
  "config_ok c \<longleftrightarrow>
     STATIC_POOL_MIN_BLOCK_SIZE_KB \<le> LJ_ANDROID_MCODE_STATIC_POOL_KB c \<and>
     sizeof_static_alloc_pool c < 2 ^ 31 \<and>
     static_alloc_pool c \<noteq> 0 \<and>
     uint (static_alloc_pool c) + sizeof_static_alloc_pool c < 2 ^ 32"

text \<open>Lines 110 and 162: the region's start rounded up to a block boundary.\<close>

definition aligned_pool_start :: "pool_config \<Rightarrow> 32 word" where
  "aligned_pool_start c =
     (static_alloc_pool c + word_of_int STATIC_POOL_MIN_BLOCK_SIZE - 1)
       AND NOT (word_of_int (STATIC_POOL_MIN_BLOCK_SIZE - 1))"

text \<open>Lines 111 and 163: the condition of the \<^verbatim>\<open>assert0\<close> after it.\<close>

definition pool_start_assert :: "pool_config \<Rightarrow> 32 word \<Rightarrow> bool" where
  "pool_start_assert c a \<longleftrightarrow>
     static_alloc_pool c \<le> a \<and>
     static_alloc_pool c \<le> static_alloc_pool c + word_of_int (sizeof_static_alloc_pool c)"

subsection \<open>The occupancy map\<close>

text \<open>
  \<^verbatim>\<open>_static_alloc_map\<close> is an array of \<^verbatim>\<open>STATIC_POOL_MAX_ENTRIES\<close> ints. Every read and
  write of the model goes through the two functions below, which fail where C would
  leave the array. A call ends in a \<open>fault\<close> when an assertion fails, when an index
  leaves the array, or when its behaviour is undefined.
\<close>

datatype fault = AssertFailed | MapIndexOutOfRange | UndefinedBehaviour

definition map_read :: "int list \<Rightarrow> int \<Rightarrow> fault + int" where
  "map_read m i =
     (if 0 \<le> i \<and> i < int (length m) then Inr (m ! nat i) else Inl MapIndexOutOfRange)"

definition map_write :: "int list \<Rightarrow> int \<Rightarrow> int \<Rightarrow> fault + int list" where
  "map_write m i v =
     (if 0 \<le> i \<and> i < int (length m) then Inr (m[nat i := v]) else Inl MapIndexOutOfRange)"

text \<open>Lines 132-134 and 193-195: the count of used bytes, which is only logged.\<close>

function count_used :: "pool_config \<Rightarrow> int list \<Rightarrow> int \<Rightarrow> int \<Rightarrow> fault + int" where
  "count_used c m i used =
     (if i < STATIC_POOL_MAX_ENTRIES c then
        (case map_read m i of
           Inl f \<Rightarrow> Inl f
         | Inr v \<Rightarrow>
             count_used c m (i + 1)
               (if v \<noteq> 0 then used + STATIC_POOL_MIN_BLOCK_SIZE else used))
      else Inr used)"
  by pat_completeness auto
termination
  by (relation "measure (\<lambda>(c, m, i, used). nat (STATIC_POOL_MAX_ENTRIES c - i))") auto

declare count_used.simps [simp del]

subsection \<open>\<^verbatim>\<open>lj_alloc_from_static_pool\<close>\<close>

text \<open>Lines 103-108: is the run from \<open>e\<close> up to \<open>lim\<close> free?\<close>

function alloc_all_ok :: "int list \<Rightarrow> int \<Rightarrow> int \<Rightarrow> fault + bool" where
  "alloc_all_ok m e lim =
     (if e < lim then
        (case map_read m e of
           Inl f \<Rightarrow> Inl f
         | Inr v \<Rightarrow> if v \<noteq> 0 then Inr False else alloc_all_ok m (e + 1) lim)
      else Inr True)"
  by pat_completeness auto
termination
  by (relation "measure (\<lambda>(m, e, lim). nat (lim - e))") auto

declare alloc_all_ok.simps [simp del]

text \<open>Lines 119-121: mark the run as used.\<close>

function alloc_mark :: "int list \<Rightarrow> int \<Rightarrow> int \<Rightarrow> fault + int list" where
  "alloc_mark m mark lim =
     (if mark < lim then
        (case map_write m mark 1 of
           Inl f \<Rightarrow> Inl f
         | Inr m' \<Rightarrow> alloc_mark m' (mark + 1) lim)
      else Inr m)"
  by pat_completeness auto
termination
  by (relation "measure (\<lambda>(m, mark, lim). nat (lim - mark))") auto

declare alloc_mark.simps [simp del]

text \<open>
  Lines 98-130: the scan over start indices. \<open>mprotect\<close> is the system call, a
  parameter: it returns 0 when the protection was changed. The result is the pointer
  \<open>p\<close> (0 is \<^verbatim>\<open>NULL\<close>) and the map.
\<close>

function alloc_scan ::
  "pool_config \<Rightarrow> (32 word \<Rightarrow> int \<Rightarrow> int \<Rightarrow> int) \<Rightarrow> int \<Rightarrow> int \<Rightarrow> int list \<Rightarrow> int
     \<Rightarrow> fault + (32 word \<times> int list)" where
  "alloc_scan c mprotect prot size_blocks m start =
     (if start \<le> STATIC_POOL_MAX_ENTRIES c - size_blocks then
        (case map_read m start of
           Inl f \<Rightarrow> Inl f
         | Inr v \<Rightarrow>
             if v = 0 then
               (case alloc_all_ok m start (start + size_blocks) of
                  Inl f \<Rightarrow> Inl f
                | Inr all_ok \<Rightarrow>
                    if all_ok then
                      (let aligned = aligned_pool_start c in
                       if \<not> pool_start_assert c aligned then Inl AssertFailed
                       else
                         let p = aligned + word_of_int (start * STATIC_POOL_MIN_BLOCK_SIZE) in
                         if mprotect p (size_blocks * STATIC_POOL_MIN_BLOCK_SIZE) prot = 0 then
                           (case alloc_mark m start (start + size_blocks) of
                              Inl f \<Rightarrow> Inl f
                            | Inr m' \<Rightarrow> Inr (p, m'))
                         else Inr (0, m))
                    else alloc_scan c mprotect prot size_blocks m (start + 1))
             else alloc_scan c mprotect prot size_blocks m (start + 1))
      else Inr (0, m))"
  by pat_completeness auto
termination
  by (relation "measure (\<lambda>(c, mp, prot, sb, m, start).
        nat (STATIC_POOL_MAX_ENTRIES c - sb - start + 1))") auto

declare alloc_scan.simps [simp del]

text \<open>Lines 84-90: the size in blocks, rounded up (\<open>sz\<close> is the argument \<^verbatim>\<open>size\<close>).\<close>

definition alloc_size_blocks :: "32 word \<Rightarrow> int" where
  "alloc_size_blocks sz =
     (let size_blocks = uint sz div STATIC_POOL_MIN_BLOCK_SIZE in
      if sz AND word_of_int STATIC_POOL_BLOCK_SIZE_MASK \<noteq> 0 then size_blocks + 1
      else size_blocks)"

definition lj_alloc_from_static_pool ::
  "pool_config \<Rightarrow> (32 word \<Rightarrow> int \<Rightarrow> int \<Rightarrow> int) \<Rightarrow> 32 word \<Rightarrow> int \<Rightarrow> int list
     \<Rightarrow> fault + (32 word \<times> int list)" where
  "lj_alloc_from_static_pool c mprotect sz prot m =
     (let size_blocks = alloc_size_blocks sz in
      if size_blocks = 0 then Inr (0, m)
      else
        (case alloc_scan c mprotect prot size_blocks m 0 of
           Inl f \<Rightarrow> Inl f
         | Inr (p, m') \<Rightarrow>
             (case count_used c m' 0 0 of
                Inl f \<Rightarrow> Inl f
              | Inr used \<Rightarrow> Inr (p, m'))))"

subsection \<open>\<^verbatim>\<open>lj_release_to_static_pool\<close>\<close>

text \<open>Lines 150-156: the size in blocks, rounded up.\<close>

definition release_size_blocks :: "32 word \<Rightarrow> int" where
  "release_size_blocks sz =
     (let size_blocks = uint sz div STATIC_POOL_MIN_BLOCK_SIZE in
      if sz AND word_of_int STATIC_POOL_BLOCK_SIZE_MASK \<noteq> 0 then size_blocks + 1
      else size_blocks)"

text \<open>
  Lines 181-187: mark the run as free. The loop compares the \<^verbatim>\<open>int\<close> counter with the
  \<^verbatim>\<open>unsigned int\<close> value \<^verbatim>\<open>index + size_blocks\<close>, an unsigned comparison. The read of
  the flag serves the log line about a block that is already free.
\<close>

function release_mark :: "int list \<Rightarrow> int \<Rightarrow> 32 word \<Rightarrow> fault + int list" where
  "release_mark m mark lim =
     (if (word_of_int mark :: 32 word) < lim then
        (case map_read m mark of
           Inl f \<Rightarrow> Inl f
         | Inr v \<Rightarrow>
             (case map_write m mark 0 of
                Inl f \<Rightarrow> Inl f
              | Inr m' \<Rightarrow> release_mark m' (mark + 1) lim))
      else Inr m)"
  by pat_completeness auto
termination
proof (relation "measure (\<lambda>(m, mark, lim). nat (uint lim - mark mod 2 ^ 32))")
  show "wf (measure (\<lambda>(m, mark, lim). nat (uint lim - mark mod 2 ^ 32)))"
    by simp
next
  fix m :: "int list" and mark :: int and lim :: "32 word" and v :: int and m' :: "int list"
  assume "(word_of_int mark :: 32 word) < lim"
  then have lt: "mark mod 2 ^ 32 < uint lim"
    by (simp add: word_less_def uint_word_of_int)
  have "uint lim < 2 ^ 32"
    using uint_bounded [of lim] by simp
  with lt have "mark mod 2 ^ 32 + 1 < 2 ^ 32"
    by linarith
  then have "(mark mod 2 ^ 32 + 1) mod 2 ^ 32 = mark mod 2 ^ 32 + 1"
    by (intro mod_pos_pos_trivial) simp_all
  then have "(mark + 1) mod 2 ^ 32 = mark mod 2 ^ 32 + 1"
    by (simp add: mod_add_left_eq)
  with lt show "((m', mark + 1, lim), (m, mark, lim))
      \<in> measure (\<lambda>(m, mark, lim). nat (uint lim - mark mod 2 ^ 32))"
    by simp
qed

declare release_mark.simps [simp del]

text \<open>
  The function returns 0 or 1, or the process ends at an assertion, or the call has no
  defined behaviour. That is the case when the bounds test of line 165 is evaluated past
  its first operand and the \<^verbatim>\<open>int\<close> product \<^verbatim>\<open>size_blocks * STATIC_POOL_MIN_BLOCK_SIZE\<close>
  exceeds \<^verbatim>\<open>INT_MAX\<close>, or the pointer sum leaves the address space; and when the pointer
  difference of line 172, a \<^verbatim>\<open>ptrdiff_t\<close>, exceeds \<^verbatim>\<open>PTRDIFF_MAX\<close>. The difference is
  divided as a signed integer and then stored in an \<^verbatim>\<open>unsigned int\<close>.
\<close>

definition lj_release_to_static_pool ::
  "pool_config \<Rightarrow> 32 word \<Rightarrow> 32 word \<Rightarrow> int list \<Rightarrow> fault + (int \<times> int list)" where
  "lj_release_to_static_pool c p sz m =
     (let size_blocks = release_size_blocks sz in
      if size_blocks = 0 then Inr (1, m)
      else
        let aligned = aligned_pool_start c in
        if \<not> pool_start_assert c aligned then Inl AssertFailed
        else if p < aligned then Inr (1, m)
        else if 2 ^ 31 \<le> size_blocks * STATIC_POOL_MIN_BLOCK_SIZE \<or>
                2 ^ 32 \<le> uint p + size_blocks * STATIC_POOL_MIN_BLOCK_SIZE
        then Inl UndefinedBehaviour
        else if aligned + word_of_int (STATIC_POOL_SIZE c)
                  < p + word_of_int (size_blocks * STATIC_POOL_MIN_BLOCK_SIZE)
        then Inr (1, m)
        else if p AND word_of_int STATIC_POOL_BLOCK_SIZE_MASK \<noteq> 0 then Inl AssertFailed
        else if 2 ^ 31 \<le> uint p - uint aligned then Inl UndefinedBehaviour
        else
          let index = (word_of_int (sint (p - aligned) sdiv STATIC_POOL_MIN_BLOCK_SIZE)
                         :: 32 word) in
          if \<not> index < word_of_int (STATIC_POOL_MAX_ENTRIES c) then Inl AssertFailed
          else if \<not> index + word_of_int size_blocks \<le> word_of_int (STATIC_POOL_MAX_ENTRIES c)
          then Inl AssertFailed
          else
            (case release_mark m (sint index) (index + word_of_int size_blocks) of
               Inl f \<Rightarrow> Inl f
             | Inr m' \<Rightarrow>
                 (case count_used c m' 0 0 of
                    Inl f \<Rightarrow> Inl f
                  | Inr used \<Rightarrow> Inr (0, m'))))"

subsection \<open>Vocabulary of the statements\<close>

text \<open>
  \<open>blocks_free m s b\<close>: the \<open>b\<close> blocks from index \<open>s\<close> lie in the map and are all free.
  \<open>set_blocks m s b v\<close>: the map \<open>m\<close> with the flags of the blocks \<open>s\<close> to \<open>s + b - 1\<close>
  set to \<open>v\<close> and every other flag as it was.
\<close>

definition blocks_free :: "int list \<Rightarrow> nat \<Rightarrow> nat \<Rightarrow> bool" where
  "blocks_free m s b \<longleftrightarrow> s + b \<le> length m \<and> (\<forall>i \<in> {s ..< s + b}. m ! i = 0)"

definition set_blocks :: "int list \<Rightarrow> nat \<Rightarrow> nat \<Rightarrow> int \<Rightarrow> int list" where
  "set_blocks m s b v = map (\<lambda>i. if s \<le> i \<and> i < s + b then v else m ! i) [0 ..< length m]"

text \<open>Lines 110-126 at a start index whose run is free: the grant, or \<^verbatim>\<open>NULL\<close> and the map
  as it was when \<open>mprotect\<close> fails.\<close>

definition alloc_grant ::
  "pool_config \<Rightarrow> (32 word \<Rightarrow> int \<Rightarrow> int \<Rightarrow> int) \<Rightarrow> int \<Rightarrow> int \<Rightarrow> int list \<Rightarrow> int
     \<Rightarrow> fault + (32 word \<times> int list)" where
  "alloc_grant c mp prot sb m start =
     (let p = aligned_pool_start c + word_of_int (start * 65536) in
      if mp p (sb * 65536) prot = 0 then Inr (p, set_blocks m (nat start) (nat sb) 1)
      else Inr (0, m))"

subsection \<open>Sequences of calls\<close>

text \<open>
  A caller makes a sequence of calls and keeps the list of what it holds: every result of
  an acquire with the size it asked for. \<open>Acquire sz prot ok\<close> calls
  \<^verbatim>\<open>lj_alloc_from_static_pool\<close>, with \<open>ok\<close> telling whether \<open>mprotect\<close> succeeds in that
  call. \<open>Release k\<close> calls \<^verbatim>\<open>lj_release_to_static_pool\<close> with the \<open>k\<close>-th pair held, address
  and size as recorded, and drops the pair from the list, so that nothing is released
  twice; a \<open>k\<close> beyond the list makes no call.
\<close>

datatype pool_call = Acquire "32 word" int bool | Release nat

fun run_calls ::
  "pool_config \<Rightarrow> pool_call list \<Rightarrow> int list \<Rightarrow> (32 word \<times> 32 word) list
     \<Rightarrow> fault + (int list \<times> (32 word \<times> 32 word) list)" where
  "run_calls c [] m held = Inr (m, held)"
| "run_calls c (Acquire sz prot ok # calls) m held =
     (case lj_alloc_from_static_pool c (\<lambda>a n prot. if ok then 0 else - 1) sz prot m of
        Inl f \<Rightarrow> Inl f
      | Inr (p, m') \<Rightarrow> run_calls c calls m' (held @ [(p, sz)]))"
| "run_calls c (Release k # calls) m held =
     (if k < length held then
        (case lj_release_to_static_pool c (fst (held ! k)) (snd (held ! k)) m of
           Inl f \<Rightarrow> Inl f
         | Inr (r, m') \<Rightarrow> run_calls c calls m' (take k held @ drop (Suc k) held))
      else run_calls c calls m held)"

text \<open>
  The invariant of such a sequence. \<open>blocks_of c h\<close> are the block indices of the pair
  \<open>h\<close> (none for a \<^verbatim>\<open>NULL\<close> address); \<open>granted c h\<close> says that the pair is a run of whole
  blocks within the pool. The pairs held cover disjoint runs, and the map has 1 exactly
  on the blocks they cover.
\<close>

definition blocks_of :: "pool_config \<Rightarrow> 32 word \<times> 32 word \<Rightarrow> nat set" where
  "blocks_of c h =
     (if fst h = 0 then {}
      else {nat ((uint (fst h) - uint (aligned_pool_start c)) div 65536) ..<
            nat ((uint (fst h) - uint (aligned_pool_start c)) div 65536)
              + nat (alloc_size_blocks (snd h))})"

definition granted :: "pool_config \<Rightarrow> 32 word \<times> 32 word \<Rightarrow> bool" where
  "granted c h \<longleftrightarrow>
     (\<exists>s. uint (fst h) = uint (aligned_pool_start c) + int s * 65536 \<and>
          1 \<le> alloc_size_blocks (snd h) \<and>
          int s + alloc_size_blocks (snd h) \<le> STATIC_POOL_MAX_ENTRIES c)"

fun disjoint_held :: "pool_config \<Rightarrow> (32 word \<times> 32 word) list \<Rightarrow> bool" where
  "disjoint_held c [] = True"
| "disjoint_held c (h # hs) =
     (blocks_of c h \<inter> (\<Union>x \<in> set hs. blocks_of c x) = {} \<and> disjoint_held c hs)"

definition pool_inv :: "pool_config \<Rightarrow> int list \<Rightarrow> (32 word \<times> 32 word) list \<Rightarrow> bool" where
  "pool_inv c m held \<longleftrightarrow>
     int (length m) = STATIC_POOL_MAX_ENTRIES c \<and>
     (\<forall>h \<in> set held. fst h \<noteq> 0 \<longrightarrow> granted c h) \<and>
     disjoint_held c held \<and>
     (\<forall>i < length m. m ! i = (if i \<in> (\<Union>x \<in> set held. blocks_of c x) then 1 else 0))"

text \<open>A pool for the concrete checks: 512 KB, eight blocks, in a region that starts at
  \<open>0x70001000\<close>, so that the aligned base is \<open>0x70010000\<close>.\<close>

definition example_pool :: pool_config where
  "example_pool = \<lparr>LJ_ANDROID_MCODE_STATIC_POOL_KB = 512, static_alloc_pool = 0x70001000\<rparr>"

section \<open>Arithmetic of the pool geometry\<close>

lemmas pool_consts = STATIC_POOL_MIN_BLOCK_SIZE_def STATIC_POOL_MIN_BLOCK_SIZE_KB_def
  STATIC_POOL_BLOCK_SIZE_MASK_def

lemma block_size [simp]: "STATIC_POOL_MIN_BLOCK_SIZE = 65536"
  by (simp add: pool_consts)

lemma mask16: "(65535 :: 32 word) = mask 16"
  by (simp add: mask_eq_exp_minus_1)

lemma and_not_mask16: "(w :: 32 word) AND NOT (mask 16) = push_bit 16 (drop_bit 16 w)"
  by (rule bit_eqI) (auto simp: bit_simps)

lemma neg_block_mask: "(- 65536 :: 32 word) = NOT (mask 16)"
  using minus_exp_eq_not_mask [of 16, where 'a = "32 word"] by simp

lemma uint_round_down: "uint ((w :: 32 word) AND - 65536) = uint w div 65536 * 65536"
proof -
  have b: "uint w < 2 ^ 32" using uint_bounded [of w] by simp
  have "uint w div 65536 * 65536 \<le> uint w" by simp
  with b have lt: "uint w div 65536 * 65536 < 2 ^ 32" by linarith
  have "w AND - 65536 = w div 65536 * 65536"
    by (simp add: neg_block_mask and_not_mask16 push_bit_eq_mult drop_bit_eq_div)
  then have "uint (w AND - 65536) = (uint w div 65536 * 65536) mod 2 ^ 32"
    by (simp add: uint_word_ariths uint_div)
  also have "\<dots> = uint w div 65536 * 65536"
    using lt by (intro mod_pos_pos_trivial) (simp_all add: pos_imp_zdiv_nonneg_iff)
  finally show ?thesis .
qed

lemma config_okD:
  assumes "config_ok c"
  shows "64 \<le> LJ_ANDROID_MCODE_STATIC_POOL_KB c"
    and "STATIC_POOL_SIZE c = LJ_ANDROID_MCODE_STATIC_POOL_KB c * 1024"
    and "STATIC_POOL_SIZE c + 65536 < 2 ^ 31"
    and "0 < uint (static_alloc_pool c)"
    and "uint (static_alloc_pool c) + STATIC_POOL_SIZE c + 65536 < 2 ^ 32"
    and "1 \<le> STATIC_POOL_MAX_ENTRIES c"
    and "STATIC_POOL_MAX_ENTRIES c * 65536 \<le> STATIC_POOL_SIZE c"
    and "STATIC_POOL_SIZE c < STATIC_POOL_MAX_ENTRIES c * 65536 + 65536"
proof -
  from assms show k: "64 \<le> LJ_ANDROID_MCODE_STATIC_POOL_KB c"
    by (simp add: config_ok_def STATIC_POOL_MIN_BLOCK_SIZE_KB_def)
  show s: "STATIC_POOL_SIZE c = LJ_ANDROID_MCODE_STATIC_POOL_KB c * 1024"
    by (simp add: STATIC_POOL_SIZE_def)
  from assms show "STATIC_POOL_SIZE c + 65536 < 2 ^ 31"
    by (simp add: config_ok_def sizeof_static_alloc_pool_def)
  from assms have "static_alloc_pool c \<noteq> 0" by (simp add: config_ok_def)
  then show "0 < uint (static_alloc_pool c)"
    by (simp add: word_greater_zero_iff [symmetric] word_less_def)
  from assms show "uint (static_alloc_pool c) + STATIC_POOL_SIZE c + 65536 < 2 ^ 32"
    by (simp add: config_ok_def sizeof_static_alloc_pool_def)
  have n: "STATIC_POOL_MAX_ENTRIES c = LJ_ANDROID_MCODE_STATIC_POOL_KB c div 64"
    by (simp add: STATIC_POOL_MAX_ENTRIES_def STATIC_POOL_MIN_BLOCK_SIZE_KB_def)
  from k show "1 \<le> STATIC_POOL_MAX_ENTRIES c" unfolding n by arith
  show "STATIC_POOL_MAX_ENTRIES c * 65536 \<le> STATIC_POOL_SIZE c" unfolding n s by arith
  show "STATIC_POOL_SIZE c < STATIC_POOL_MAX_ENTRIES c * 65536 + 65536" unfolding n s by arith
qed

lemma uint_aligned_pool_start:
  assumes "config_ok c"
  shows "uint (aligned_pool_start c) = (uint (static_alloc_pool c) + 65535) div 65536 * 65536"
proof -
  let ?a = "static_alloc_pool c"
  have "uint ?a + 65535 < 2 ^ 32"
    using config_okD(1,2,5) [OF assms] by linarith
  then have "uint (?a + 65535) = uint ?a + 65535"
    using uint_add_lem [of ?a 65535] by simp
  moreover have "aligned_pool_start c = (?a + 65535) AND - 65536"
    by (simp add: aligned_pool_start_def add.commute)
  ultimately show ?thesis
    by (simp add: uint_round_down)
qed

lemma aligned_pool_start_bounds:
  assumes "config_ok c"
  shows "uint (static_alloc_pool c) \<le> uint (aligned_pool_start c)"
    and "uint (aligned_pool_start c) < uint (static_alloc_pool c) + 65536"
    and "65536 dvd uint (aligned_pool_start c)"
    and "0 < uint (aligned_pool_start c)"
    and "uint (aligned_pool_start c) + STATIC_POOL_SIZE c < 2 ^ 32"
proof -
  let ?s = "uint (static_alloc_pool c)"
  have eq: "uint (aligned_pool_start c) = (?s + 65535) div 65536 * 65536"
    by (rule uint_aligned_pool_start [OF assms])
  show 1: "?s \<le> uint (aligned_pool_start c)" unfolding eq by arith
  show 2: "uint (aligned_pool_start c) < ?s + 65536" unfolding eq by arith
  show "65536 dvd uint (aligned_pool_start c)" unfolding eq by simp
  from 1 config_okD(4) [OF assms] show "0 < uint (aligned_pool_start c)" by linarith
  from 2 config_okD(5) [OF assms] show "uint (aligned_pool_start c) + STATIC_POOL_SIZE c < 2 ^ 32"
    by linarith
qed

lemma pool_start_assert_ok:
  assumes "config_ok c"
  shows "pool_start_assert c (aligned_pool_start c)"
proof -
  have "static_alloc_pool c \<le> aligned_pool_start c"
    using aligned_pool_start_bounds(1) [OF assms] by (simp add: word_le_def)
  moreover have "static_alloc_pool c
      \<le> static_alloc_pool c + word_of_int (sizeof_static_alloc_pool c)"
  proof -
    have "0 \<le> sizeof_static_alloc_pool c" "sizeof_static_alloc_pool c < 2 ^ 32"
         "uint (static_alloc_pool c) + sizeof_static_alloc_pool c < 2 ^ 32"
      using config_okD(1,2,3,5) [OF assms] by (simp_all add: sizeof_static_alloc_pool_def)
    then show ?thesis
      by (simp add: word_le_def uint_word_ariths uint_word_of_int mod_pos_pos_trivial)
  qed
  ultimately show ?thesis by (simp add: pool_start_assert_def)
qed

lemma ceil_div_block:
  fixes x :: int
  shows "(x + 65535) div 65536 = (if x mod 65536 = 0 then x div 65536 else x div 65536 + 1)"
proof -
  let ?r = "x mod 65536"
  have r: "0 \<le> ?r" "?r < 65536" by simp_all
  have "(x + 65535) div 65536 = x div 65536 + (?r + 65535) div 65536"
    using div_add1_eq [of x 65535 65536] by simp
  moreover have "(?r + 65535) div 65536 = (if ?r = 0 then 0 else 1)"
  proof (cases "?r = 0")
    case True
    then show ?thesis by simp
  next
    case False
    with r have "0 \<le> ?r - 1" "?r - 1 < 65536" by linarith+
    then have "(?r - 1) div 65536 = 0" by (intro div_pos_pos_trivial)
    moreover have "(?r + 65535) div 65536 = (?r - 1) div 65536 + 1"
      using div_add_self2 [of 65536 "?r - 1"] by simp
    ultimately show ?thesis using False by simp
  qed
  ultimately show ?thesis by simp
qed

lemma size_blocks_ceil_aux:
  "(if (sz :: 32 word) AND 65535 \<noteq> 0 then uint sz div 65536 + 1 else uint sz div 65536)
     = (uint sz + 65535) div 65536"
proof -
  have "sz AND 65535 = 0 \<longleftrightarrow> 65536 dvd uint sz"
    using and_mask_dvd [of 16 sz] by (simp add: mask16)
  then have "sz AND 65535 = 0 \<longleftrightarrow> uint sz mod 65536 = 0"
    by (simp add: dvd_eq_mod_eq_0)
  then show ?thesis by (simp add: ceil_div_block)
qed

lemma alloc_size_blocks_ceil: "alloc_size_blocks sz = (uint sz + 65535) div 65536"
  using size_blocks_ceil_aux [of sz]
  by (simp add: alloc_size_blocks_def STATIC_POOL_BLOCK_SIZE_MASK_def Let_def)

lemma release_size_blocks_ceil: "release_size_blocks sz = (uint sz + 65535) div 65536"
  using size_blocks_ceil_aux [of sz]
  by (simp add: release_size_blocks_def STATIC_POOL_BLOCK_SIZE_MASK_def Let_def)

lemma size_blocks_range:
  "0 \<le> (uint (sz :: 32 word) + 65535) div 65536" "(uint sz + 65535) div 65536 \<le> 65536"
  "(uint sz + 65535) div 65536 = 0 \<longleftrightarrow> sz = 0"
proof -
  have b: "0 \<le> uint sz" "uint sz < 2 ^ 32" using uint_bounded [of sz] by simp_all
  from b show "0 \<le> (uint sz + 65535) div 65536"
    by (simp add: pos_imp_zdiv_nonneg_iff)
  from b have "uint sz + 65535 < 65537 * 65536" by simp
  then have "(uint sz + 65535) div 65536 < 65537"
    by (simp add: div_less_iff_less_mult)
  then show "(uint sz + 65535) div 65536 \<le> 65536" by simp
  have q: "0 \<le> uint sz div 65536" using b by (simp add: pos_imp_zdiv_nonneg_iff)
  have x: "uint sz = uint sz div 65536 * 65536 + uint sz mod 65536" by simp
  have "(uint sz + 65535) div 65536 = 0 \<longleftrightarrow> uint sz = 0"
  proof
    assume z: "(uint sz + 65535) div 65536 = 0"
    show "uint sz = 0"
    proof (cases "uint sz mod 65536 = 0")
      case True
      with z have "uint sz div 65536 = 0" by (simp add: ceil_div_block)
      with True x show ?thesis by simp
    next
      case False
      from z have "(if uint sz mod 65536 = 0 then uint sz div 65536 else uint sz div 65536 + 1) = 0"
        by (simp only: ceil_div_block)
      with False have "uint sz div 65536 + 1 = 0" by (simp only: if_False)
      moreover have "\<And>a :: int. 0 \<le> a \<Longrightarrow> a + 1 = 0 \<Longrightarrow> False" by linarith
      ultimately have False using q by blast
      then show ?thesis ..
    qed
  qed simp
  also have "\<dots> \<longleftrightarrow> sz = 0" by (simp add: uint_0_iff)
  finally show "(uint sz + 65535) div 65536 = 0 \<longleftrightarrow> sz = 0" .
qed

lemma pool_addr_uint:
  assumes "config_ok c" "0 \<le> k" "k \<le> STATIC_POOL_SIZE c"
  shows "uint (aligned_pool_start c + word_of_int k) = uint (aligned_pool_start c) + k"
proof -
  have k: "k < 2 ^ 32" using assms(3) config_okD(3) [OF assms(1)] by simp
  with assms(2) have "uint (word_of_int k :: 32 word) = k"
    by (simp add: uint_word_of_int mod_pos_pos_trivial)
  moreover have "uint (aligned_pool_start c) + k < 2 ^ 32"
    using aligned_pool_start_bounds(5) [OF assms(1)] assms(3) by linarith
  ultimately show ?thesis
    using uint_add_lem [of "aligned_pool_start c" "word_of_int k"] by simp
qed

section \<open>The loops\<close>

lemma length_set_blocks [simp]: "length (set_blocks m s b v) = length m"
  by (simp add: set_blocks_def)

lemma nth_set_blocks:
  "i < length m \<Longrightarrow> set_blocks m s b v ! i = (if s \<le> i \<and> i < s + b then v else m ! i)"
  by (simp add: set_blocks_def)

lemma set_blocks_empty [simp]: "set_blocks m s 0 v = m"
  by (rule nth_equalityI) (simp_all add: nth_set_blocks)

lemma set_blocks_step:
  "s < length m \<Longrightarrow> set_blocks (m[s := v]) (Suc s) b v = set_blocks m s (Suc b) v"
  by (rule nth_equalityI) (auto simp: nth_set_blocks nth_list_update)

lemma count_used_ok:
  "0 \<le> i \<Longrightarrow> STATIC_POOL_MAX_ENTRIES c \<le> int (length m) \<Longrightarrow> \<exists>u. count_used c m i used = Inr u"
proof (induction c m i used rule: count_used.induct)
  case (1 c m i used)
  show ?case
  proof (cases "i < STATIC_POOL_MAX_ENTRIES c")
    case True
    with "1.prems" have r: "map_read m i = Inr (m ! nat i)"
      by (simp add: map_read_def)
    from "1.IH" [OF True r] "1.prems" True r show ?thesis
      by (subst count_used.simps) simp
  next
    case False
    then show ?thesis by (subst count_used.simps) simp
  qed
qed

lemma alloc_all_ok_eq:
  "0 \<le> e \<Longrightarrow> lim \<le> int (length m) \<Longrightarrow>
   alloc_all_ok m e lim = Inr (\<forall>i. e \<le> i \<and> i < lim \<longrightarrow> m ! nat i = 0)"
proof (induction m e lim rule: alloc_all_ok.induct)
  case (1 m e lim)
  show ?case
  proof (cases "e < lim")
    case False
    then show ?thesis by (subst alloc_all_ok.simps) simp
  next
    case True
    with "1.prems" have r: "map_read m e = Inr (m ! nat e)"
      by (simp add: map_read_def)
    show ?thesis
    proof (cases "m ! nat e = 0")
      case False
      with True r show ?thesis
        by (subst alloc_all_ok.simps) auto
    next
      case z: True
      then have ne: "\<not> m ! nat e \<noteq> 0" by simp
      have "alloc_all_ok m (e + 1) lim = Inr (\<forall>i. e + 1 \<le> i \<and> i < lim \<longrightarrow> m ! nat i = 0)"
        using "1.IH" [OF True r ne] "1.prems" by simp
      moreover have "(\<forall>i. e + 1 \<le> i \<and> i < lim \<longrightarrow> m ! nat i = 0)
          \<longleftrightarrow> (\<forall>i. e \<le> i \<and> i < lim \<longrightarrow> m ! nat i = 0)"
      proof
        assume a: "\<forall>i. e + 1 \<le> i \<and> i < lim \<longrightarrow> m ! nat i = 0"
        show "\<forall>i. e \<le> i \<and> i < lim \<longrightarrow> m ! nat i = 0"
        proof (intro allI impI)
          fix i assume "e \<le> i \<and> i < lim"
          then have "i = e \<or> (e + 1 \<le> i \<and> i < lim)" by linarith
          with a z show "m ! nat i = 0" by auto
        qed
      qed simp
      ultimately show ?thesis
        using True r z by (subst alloc_all_ok.simps) simp
    qed
  qed
qed

lemma alloc_mark_eq:
  "0 \<le> k \<Longrightarrow> lim \<le> int (length m) \<Longrightarrow>
   alloc_mark m k lim = Inr (set_blocks m (nat k) (nat (lim - k)) 1)"
proof (induction m k lim rule: alloc_mark.induct)
  case (1 m k lim)
  show ?case
  proof (cases "k < lim")
    case False
    then have "nat (lim - k) = 0" by simp
    with False show ?thesis by (subst alloc_mark.simps) simp
  next
    case True
    with "1.prems" have w: "map_write m k 1 = Inr (m[nat k := 1])"
      by (simp add: map_write_def)
    have "alloc_mark (m[nat k := 1]) (k + 1) lim
        = Inr (set_blocks (m[nat k := 1]) (nat (k + 1)) (nat (lim - (k + 1))) 1)"
      using "1.IH" [OF True w] "1.prems" by simp
    moreover have "nat (k + 1) = Suc (nat k)" using "1.prems" by simp
    moreover have "nat (lim - k) = Suc (nat (lim - (k + 1)))" using True by simp
    moreover have "nat k < length m" using True "1.prems" by simp
    ultimately show ?thesis
      using True w by (subst alloc_mark.simps) (simp add: set_blocks_step)
  qed
qed

lemma blocks_free_int:
  assumes "0 \<le> s" "0 \<le> b" "s + b \<le> int (length m)"
  shows "(\<forall>i. s \<le> i \<and> i < s + b \<longrightarrow> m ! nat i = 0) \<longleftrightarrow> blocks_free m (nat s) (nat b)"
proof
  assume a: "\<forall>i. s \<le> i \<and> i < s + b \<longrightarrow> m ! nat i = 0"
  have "m ! j = 0" if "j \<in> {nat s ..< nat s + nat b}" for j
  proof -
    from that assms have "s \<le> int j \<and> int j < s + b" by auto
    with a have "m ! nat (int j) = 0" by blast
    then show ?thesis by simp
  qed
  with assms show "blocks_free m (nat s) (nat b)"
    by (auto simp: blocks_free_def)
next
  assume f: "blocks_free m (nat s) (nat b)"
  show "\<forall>i. s \<le> i \<and> i < s + b \<longrightarrow> m ! nat i = 0"
  proof (intro allI impI)
    fix i assume "s \<le> i \<and> i < s + b"
    with assms have "nat i \<in> {nat s ..< nat s + nat b}" by auto
    with f show "m ! nat i = 0" by (simp add: blocks_free_def)
  qed
qed

lemma alloc_scan_step:
  assumes c: "config_ok c" and len: "int (length m) = STATIC_POOL_MAX_ENTRIES c"
    and s: "0 \<le> start" and b: "1 \<le> sb" and le: "start \<le> STATIC_POOL_MAX_ENTRIES c - sb"
  shows "alloc_scan c mp prot sb m start =
     (if blocks_free m (nat start) (nat sb) then alloc_grant c mp prot sb m start
      else alloc_scan c mp prot sb m (start + 1))"
proof -
  have r: "map_read m start = Inr (m ! nat start)"
    using s b le len by (simp add: map_read_def)
  have lim: "start + sb \<le> int (length m)"
    using le len by simp
  have ok: "alloc_all_ok m start (start + sb) = Inr (blocks_free m (nat start) (nat sb))"
    using alloc_all_ok_eq [OF s lim] blocks_free_int [OF s _ lim] b by simp
  have mk: "alloc_mark m start (start + sb) = Inr (set_blocks m (nat start) (nat sb) 1)"
    using alloc_mark_eq [OF s lim] by simp
  have first: "blocks_free m (nat start) (nat sb) \<Longrightarrow> m ! nat start = 0"
    using b by (simp add: blocks_free_def)
  show ?thesis
    using r ok mk first le pool_start_assert_ok [OF c]
    by (subst alloc_scan.simps) (auto simp: alloc_grant_def Let_def)
qed

lemma alloc_scan_past:
  "STATIC_POOL_MAX_ENTRIES c - sb < start \<Longrightarrow> alloc_scan c mp prot sb m start = Inr (0, m)"
  by (subst alloc_scan.simps) simp

lemma alloc_scan_none:
  assumes c: "config_ok c" and len: "int (length m) = STATIC_POOL_MAX_ENTRIES c"
    and b: "1 \<le> sb"
  shows "0 \<le> start \<Longrightarrow> \<forall>s. nat start \<le> s \<longrightarrow> \<not> blocks_free m s (nat sb) \<Longrightarrow>
     alloc_scan c mp prot sb m start = Inr (0, m)"
proof (induction "nat (STATIC_POOL_MAX_ENTRIES c - sb - start + 1)" arbitrary: start)
  case 0
  then have "STATIC_POOL_MAX_ENTRIES c - sb < start" by simp
  then show ?case by (rule alloc_scan_past)
next
  case (Suc n)
  from Suc.hyps(2) have le: "start \<le> STATIC_POOL_MAX_ENTRIES c - sb" by linarith
  from Suc.prems have nf: "\<not> blocks_free m (nat start) (nat sb)" by simp
  have "alloc_scan c mp prot sb m (start + 1) = Inr (0, m)"
  proof (rule Suc.hyps(1))
    from Suc.hyps(2) show "n = nat (STATIC_POOL_MAX_ENTRIES c - sb - (start + 1) + 1)" by linarith
    from Suc.prems show "0 \<le> start + 1" by simp
    from Suc.prems show "\<forall>s. nat (start + 1) \<le> s \<longrightarrow> \<not> blocks_free m s (nat sb)"
      by (simp add: nat_add_distrib)
  qed
  with alloc_scan_step [OF c len Suc.prems(1) b le] nf show ?case by simp
qed

lemma alloc_scan_first:
  assumes c: "config_ok c" and len: "int (length m) = STATIC_POOL_MAX_ENTRIES c"
    and b: "1 \<le> sb"
  shows "0 \<le> start \<Longrightarrow> blocks_free m (nat start + k) (nat sb) \<Longrightarrow>
     \<forall>t. nat start \<le> t \<and> t < nat start + k \<longrightarrow> \<not> blocks_free m t (nat sb) \<Longrightarrow>
     alloc_scan c mp prot sb m start = alloc_grant c mp prot sb m (start + int k)"
proof (induction k arbitrary: start)
  case 0
  from "0.prems"(2) len b "0.prems"(1) have le: "start \<le> STATIC_POOL_MAX_ENTRIES c - sb"
    by (simp add: blocks_free_def) linarith
  from alloc_scan_step [OF c len "0.prems"(1) b le] "0.prems"(2) show ?case by simp
next
  case (Suc k)
  from Suc.prems(2) len b Suc.prems(1) have le: "start \<le> STATIC_POOL_MAX_ENTRIES c - sb"
    by (simp add: blocks_free_def) linarith
  from Suc.prems(3) have nf: "\<not> blocks_free m (nat start) (nat sb)" by simp
  have n1: "nat (start + 1) = Suc (nat start)" using Suc.prems(1) by simp
  have "alloc_scan c mp prot sb m (start + 1) = alloc_grant c mp prot sb m (start + 1 + int k)"
  proof (rule Suc.IH)
    from Suc.prems show "0 \<le> start + 1" by simp
    from Suc.prems(2) show "blocks_free m (nat (start + 1) + k) (nat sb)" by (simp add: n1)
    from Suc.prems(3) show "\<forall>t. nat (start + 1) \<le> t \<and> t < nat (start + 1) + k
        \<longrightarrow> \<not> blocks_free m t (nat sb)" by (simp add: n1)
  qed
  moreover have "start + 1 + int k = start + int (Suc k)" by simp
  ultimately show ?case
    using alloc_scan_step [OF c len Suc.prems(1) b le, of mp prot] nf by simp
qed

lemma alloc_scan_closed:
  assumes c: "config_ok c" and len: "int (length m) = STATIC_POOL_MAX_ENTRIES c"
    and b: "1 \<le> sb"
  shows "alloc_scan c mp prot sb m 0 =
     (if \<exists>s. blocks_free m s (nat sb)
      then alloc_grant c mp prot sb m (int (LEAST s. blocks_free m s (nat sb)))
      else Inr (0, m))"
proof (cases "\<exists>s. blocks_free m s (nat sb)")
  case False
  then show ?thesis
    using alloc_scan_none [OF c len b, of 0 mp prot] by simp
next
  case True
  let ?s = "LEAST s. blocks_free m s (nat sb)"
  from True have f: "blocks_free m ?s (nat sb)" by (auto intro: LeastI)
  have l: "\<forall>t. t < ?s \<longrightarrow> \<not> blocks_free m t (nat sb)"
    using not_less_Least by blast
  have f0: "blocks_free m (nat 0 + ?s) (nat sb)"
    using f by (simp only: nat_0 add_0)
  have l0: "\<forall>t. nat 0 \<le> t \<and> t < nat 0 + ?s \<longrightarrow> \<not> blocks_free m t (nat sb)"
    using l by (simp only: nat_0 add_0) blast
  have "alloc_scan c mp prot sb m 0 = alloc_grant c mp prot sb m (0 + int ?s)"
    by (rule alloc_scan_first [OF c len b order_refl f0 l0])
  then show ?thesis
    using True by (simp only: if_True add_0)
qed

lemma alloc_grant_cases:
  "alloc_grant c mp prot sb m start = Inr (0, m) \<or>
   alloc_grant c mp prot sb m start =
     Inr (aligned_pool_start c + word_of_int (start * 65536), set_blocks m (nat start) (nat sb) 1)"
  by (simp add: alloc_grant_def Let_def)

lemma alloc_closed:
  assumes c: "config_ok c" and len: "int (length m) = STATIC_POOL_MAX_ENTRIES c"
  shows "lj_alloc_from_static_pool c mp sz prot m =
     (if alloc_size_blocks sz = 0 then Inr (0, m)
      else if \<exists>s. blocks_free m s (nat (alloc_size_blocks sz))
      then alloc_grant c mp prot (alloc_size_blocks sz) m
             (int (LEAST s. blocks_free m s (nat (alloc_size_blocks sz))))
      else Inr (0, m))"
proof (cases "alloc_size_blocks sz = 0")
  case True
  then show ?thesis by (simp add: lj_alloc_from_static_pool_def)
next
  case False
  let ?sb = "alloc_size_blocks sz"
  have "0 \<le> ?sb" by (simp only: alloc_size_blocks_ceil size_blocks_range)
  with False have b: "1 \<le> ?sb" by linarith
  have "\<exists>p m'. alloc_scan c mp prot ?sb m 0 = Inr (p, m') \<and> length m' = length m"
  proof (cases "\<exists>s. blocks_free m s (nat ?sb)")
    case True
    with alloc_scan_closed [OF c len b, of mp prot]
      alloc_grant_cases [of c mp prot ?sb m "int (LEAST s. blocks_free m s (nat ?sb))"]
    show ?thesis by auto
  next
    case False
    with alloc_scan_closed [OF c len b, of mp prot] show ?thesis by simp
  qed
  then obtain p m' where r: "alloc_scan c mp prot ?sb m 0 = Inr (p, m')"
    and l: "length m' = length m" by blast
  from l len have "STATIC_POOL_MAX_ENTRIES c \<le> int (length m')" by simp
  from count_used_ok [OF _ this, of 0 0] obtain u where u: "count_used c m' 0 0 = Inr u" by auto
  have "lj_alloc_from_static_pool c mp sz prot m = alloc_scan c mp prot ?sb m 0"
    using False r u by (simp add: lj_alloc_from_static_pool_def)
  then show ?thesis
    using False alloc_scan_closed [OF c len b, of mp prot] by simp
qed

lemma ceil_div_block_bounds:
  fixes x :: int
  shows "x \<le> (x + 65535) div 65536 * 65536" and "(x + 65535) div 65536 * 65536 < x + 65536"
proof -
  define q where "q = x div 65536"
  define r where "r = x mod 65536"
  have x: "x = q * 65536 + r" by (simp add: q_def r_def)
  have r: "0 \<le> r" "r < 65536" by (simp_all add: r_def)
  have e: "(x + 65535) div 65536 = (if r = 0 then q else q + 1)"
    unfolding q_def r_def by (rule ceil_div_block)
  show "x \<le> (x + 65535) div 65536 * 65536"
    unfolding e using x r by (cases "r = 0") simp_all
  show "(x + 65535) div 65536 * 65536 < x + 65536"
    unfolding e using x r by (cases "r = 0") simp_all
qed


section \<open>Releasing\<close>

lemma alloc_success:
  assumes c: "config_ok c" and len: "int (length m) = STATIC_POOL_MAX_ENTRIES c"
    and r: "lj_alloc_from_static_pool c mp sz prot m = Inr (p, m')" and p: "p \<noteq> 0"
  shows "\<exists>s. blocks_free m s (nat (alloc_size_blocks sz)) \<and>
           (\<forall>t < s. \<not> blocks_free m t (nat (alloc_size_blocks sz))) \<and>
           1 \<le> alloc_size_blocks sz \<and>
           p = aligned_pool_start c + word_of_int (int s * 65536) \<and>
           uint p = uint (aligned_pool_start c) + int s * 65536 \<and>
           m' = set_blocks m s (nat (alloc_size_blocks sz)) 1"
proof -
  let ?sb = "alloc_size_blocks sz"
  note cl = alloc_closed [OF c len, of mp sz prot]
  from cl r p have nz: "?sb \<noteq> 0" by (auto split: if_splits)
  have "0 \<le> ?sb" by (simp only: alloc_size_blocks_ceil size_blocks_range)
  with nz have b: "1 \<le> ?sb" by linarith
  from cl r p nz have ex: "\<exists>s. blocks_free m s (nat ?sb)" by (auto split: if_splits)
  define s0 where "s0 = (LEAST s. blocks_free m s (nat ?sb))"
  from ex have f: "blocks_free m s0 (nat ?sb)" unfolding s0_def by (auto intro: LeastI)
  have l: "\<forall>t < s0. \<not> blocks_free m t (nat ?sb)"
    unfolding s0_def using not_less_Least by blast
  from cl nz ex have "lj_alloc_from_static_pool c mp sz prot m = alloc_grant c mp prot ?sb m (int s0)"
    by (simp add: s0_def)
  with r p have pe: "p = aligned_pool_start c + word_of_int (int s0 * 65536)"
    and me: "m' = set_blocks m s0 (nat ?sb) 1"
    by (auto simp: alloc_grant_def Let_def split: if_splits)
  have "s0 + nat ?sb \<le> length m" using f by (simp add: blocks_free_def)
  then have "int s0 + ?sb \<le> STATIC_POOL_MAX_ENTRIES c" using len b by linarith
  then have "int s0 * 65536 \<le> STATIC_POOL_SIZE c"
    using config_okD(7) [OF c] b by linarith
  then have "uint p = uint (aligned_pool_start c) + int s0 * 65536"
    unfolding pe by (intro pool_addr_uint [OF c]) simp_all
  with f l b pe me show ?thesis by blast
qed

lemma mod_sub_once:
  fixes a n :: int
  assumes "n \<le> a" "a < 2 * n"
  shows "a mod n = a - n"
proof -
  have "(a - n) mod n = a - n"
    using assms by (intro mod_pos_pos_trivial) simp_all
  then show ?thesis by simp
qed

lemma sint32_cases:
  "sint (w :: 32 word) = (if uint w < 2 ^ 31 then uint w else uint w - 2 ^ 32)"
proof -
  have b: "0 \<le> uint w" "uint w < 2 ^ 32" using uint_bounded [of w] by simp_all
  have s: "sint w = (uint w + 2 ^ 31) mod 2 ^ 32 - 2 ^ 31"
    by (simp add: sint_uint signed_take_bit_eq_take_bit_shift take_bit_eq_mod)
  show ?thesis
  proof (cases "uint w < 2 ^ 31")
    case True
    with b have "(uint w + 2 ^ 31) mod 2 ^ 32 = uint w + 2 ^ 31"
      by (intro mod_pos_pos_trivial) simp_all
    with s True show ?thesis by simp
  next
    case False
    with b have "(uint w + 2 ^ 31) mod 2 ^ 32 = uint w + 2 ^ 31 - 2 ^ 32"
      by (intro mod_sub_once) simp_all
    with s False show ?thesis by simp
  qed
qed

lemma exact_sdiv_block: "(65536 * j) sdiv 65536 = (j :: int)"
  by (simp add: signed_divide_int_eq_divide_int)

lemma uint_word_of_int_small:
  "0 \<le> k \<Longrightarrow> k < 2 ^ 32 \<Longrightarrow> uint (word_of_int k :: 32 word) = k"
  by (simp add: uint_word_of_int mod_pos_pos_trivial)

lemma block_aligned_uint: "(p :: 32 word) AND 65535 = 0 \<longleftrightarrow> 65536 dvd uint p"
  using and_mask_dvd [of 16 p] by (simp add: mask16)

text \<open>Line 172 and the assertions of lines 173-174.\<close>

lemma release_index:
  fixes p a :: "32 word" and sb n :: int
  assumes ap: "uint a \<le> uint p" and pa: "65536 dvd uint p" and aa: "65536 dvd uint a"
    and sb: "1 \<le> sb" "sb \<le> 65536" and n: "0 \<le> n" "n < 32768"
  defines "index \<equiv> (word_of_int (sint (p - a) sdiv 65536) :: 32 word)"
  shows "(index < word_of_int n \<and> index + word_of_int sb \<le> word_of_int n)
           \<longleftrightarrow> (uint p - uint a) div 65536 + sb \<le> n"
    and "(uint p - uint a) div 65536 + sb \<le> n \<Longrightarrow>
           uint index = (uint p - uint a) div 65536 \<and> sint index = (uint p - uint a) div 65536 \<and>
           uint (index + word_of_int sb) = (uint p - uint a) div 65536 + sb"
    and "uint p = uint a + (uint p - uint a) div 65536 * 65536"
    and "0 \<le> (uint p - uint a) div 65536"
proof -
  from pa aa have "65536 dvd uint p - uint a" by (rule dvd_diff)
  then obtain i where i: "uint p - uint a = 65536 * i" by (auto simp: dvd_def)
  have d: "uint (p - a) = 65536 * i"
    using uint_sub_lem [of a p] ap i by simp
  have pb: "uint p < 4294967296" "0 \<le> uint a" using uint_bounded [of p] by simp_all
  from i ap have i0: "0 \<le> i" by linarith
  from i pb have i1: "i < 65536" by linarith
  have q: "(uint p - uint a) div 65536 = i" unfolding i by simp
  show "uint p = uint a + (uint p - uint a) div 65536 * 65536"
    unfolding q using i by linarith
  show "0 \<le> (uint p - uint a) div 65536" unfolding q by (rule i0)
  have un: "uint (word_of_int n :: 32 word) = n"
    using n by (intro uint_word_of_int_small) simp_all
  have us: "uint (word_of_int sb :: 32 word) = sb"
    using sb by (intro uint_word_of_int_small) simp_all
  have small: "uint index = i \<and> sint index = i \<and> uint (index + word_of_int sb) = i + sb"
    if "i < 32768"
  proof -
    from that have "uint (p - a) < 2 ^ 31" unfolding d by simp
    then have "sint (p - a) = 65536 * i" by (simp add: sint32_cases d)
    then have ix: "index = word_of_int i" by (simp add: index_def exact_sdiv_block)
    have ui: "uint index = i"
      unfolding ix using i0 that by (intro uint_word_of_int_small) simp_all
    then have "sint index = i" using that by (simp add: sint32_cases)
    moreover have "uint (index + word_of_int sb) = i + sb"
      using uint_add_lem [of index "word_of_int sb"] ui us that sb by simp
    ultimately show ?thesis using ui by simp
  qed
  have big: "2 ^ 32 - 32768 \<le> uint index" if "\<not> i < 32768"
  proof -
    from that have "\<not> uint (p - a) < 2 ^ 31" unfolding d by simp
    then have "sint (p - a) = 65536 * i - 2 ^ 32" by (simp add: sint32_cases d)
    also have "\<dots> = 65536 * (i - 65536)" by simp
    finally have ix: "index = word_of_int (i - 65536)"
      by (simp only: index_def exact_sdiv_block)
    have "(i - 65536 + 2 ^ 32) mod 2 ^ 32 = i - 65536 + 2 ^ 32"
      using i0 i1 by (intro mod_pos_pos_trivial) simp_all
    moreover have "(i - 65536 + 2 ^ 32) mod 2 ^ 32 = (i - 65536) mod 2 ^ 32"
      by (rule mod_add_self2)
    ultimately have "(i - 65536) mod 2 ^ 32 = i - 65536 + 2 ^ 32"
      by (simp only:)
    moreover have "uint index = (i - 65536) mod 2 ^ LENGTH(32)"
      unfolding ix by (rule uint_word_of_int)
    ultimately have "uint index = i - 65536 + 2 ^ 32"
      by simp
    with that show ?thesis by simp
  qed
  show "(index < word_of_int n \<and> index + word_of_int sb \<le> word_of_int n)
           \<longleftrightarrow> (uint p - uint a) div 65536 + sb \<le> n"
  proof (cases "i < 32768")
    case True
    from small [OF True] un have "(index < word_of_int n \<and> index + word_of_int sb \<le> word_of_int n)
        \<longleftrightarrow> (i < n \<and> i + sb \<le> n)"
      by (simp add: word_less_def word_le_def)
    also from sb have "\<dots> \<longleftrightarrow> i + sb \<le> n" by linarith
    finally show ?thesis unfolding q .
  next
    case False
    from big [OF False] un n have "\<not> index < word_of_int n"
      by (simp add: word_less_def)
    moreover from False sb n have "\<not> i + sb \<le> n" by linarith
    ultimately show ?thesis unfolding q by simp
  qed
  show "uint index = (uint p - uint a) div 65536 \<and> sint index = (uint p - uint a) div 65536 \<and>
        uint (index + word_of_int sb) = (uint p - uint a) div 65536 + sb"
    if "(uint p - uint a) div 65536 + sb \<le> n"
  proof -
    from that q sb n have "i < 32768" by linarith
    from small [OF this] show ?thesis unfolding q .
  qed
qed

lemma release_mark_eq:
  "0 \<le> k \<Longrightarrow> k \<le> uint lim \<Longrightarrow> uint lim \<le> int (length m) \<Longrightarrow>
   release_mark m k lim = Inr (set_blocks m (nat k) (nat (uint lim - k)) 0)"
proof (induction m k lim rule: release_mark.induct)
  case (1 m k lim)
  have "uint lim < 2 ^ 32" using uint_bounded [of lim] by simp
  with "1.prems" have "uint (word_of_int k :: 32 word) = k"
    by (intro uint_word_of_int_small) simp_all
  then have cond: "(word_of_int k :: 32 word) < lim \<longleftrightarrow> k < uint lim"
    by (simp add: word_less_def)
  show ?case
  proof (cases "k < uint lim")
    case False
    with "1.prems" have "nat (uint lim - k) = 0" by simp
    with False cond show ?thesis by (subst release_mark.simps) simp
  next
    case True
    with cond have t: "(word_of_int k :: 32 word) < lim" by simp
    from True "1.prems" have r: "map_read m k = Inr (m ! nat k)"
      by (simp add: map_read_def)
    from True "1.prems" have w: "map_write m k 0 = Inr (m[nat k := 0])"
      by (simp add: map_write_def)
    have "release_mark (m[nat k := 0]) (k + 1) lim
        = Inr (set_blocks (m[nat k := 0]) (nat (k + 1)) (nat (uint lim - (k + 1))) 0)"
      using "1.IH" [OF t r w] "1.prems" True by simp
    moreover have "nat (k + 1) = Suc (nat k)" using "1.prems" by simp
    moreover have "nat (uint lim - k) = Suc (nat (uint lim - (k + 1)))" using True by simp
    moreover have "nat k < length m" using True "1.prems" by simp
    ultimately show ?thesis
      using t r w by (subst release_mark.simps) (simp add: set_blocks_step)
  qed
qed

lemma uint_plus_word_of_int:
  "uint ((p :: 32 word) + word_of_int x) = (uint p + x) mod 2 ^ 32"
  by (simp add: uint_word_ariths uint_word_of_int mod_add_right_eq)

lemma max_entries_small:
  assumes "config_ok c"
  shows "STATIC_POOL_MAX_ENTRIES c < 32768"
proof -
  have "STATIC_POOL_MAX_ENTRIES c * 65536 < 32768 * 65536"
    using config_okD(3,7) [OF assms] by simp
  then show ?thesis by simp
qed

lemma aligned_offset:
  fixes p a :: "32 word"
  assumes "65536 dvd uint p" "65536 dvd uint a"
  shows "uint p = uint a + (uint p - uint a) div 65536 * 65536"
proof -
  from assms have "65536 dvd uint p - uint a" by (rule dvd_diff)
  then have "(uint p - uint a) div 65536 * 65536 = uint p - uint a"
    by (rule dvd_div_mult_self)
  then show ?thesis by linarith
qed

lemma release_size_blocks_range:
  "0 \<le> release_size_blocks sz" "release_size_blocks sz \<le> 65536"
  "release_size_blocks sz = 0 \<longleftrightarrow> sz = 0"
  by (simp_all only: release_size_blocks_ceil size_blocks_range)

lemma release_closed:
  assumes c: "config_ok c" and len: "int (length m) = STATIC_POOL_MAX_ENTRIES c"
  shows "lj_release_to_static_pool c p sz m =
    (if release_size_blocks sz = 0 then Inr (1, m)
     else if uint p < uint (aligned_pool_start c) then Inr (1, m)
     else if 2 ^ 31 \<le> release_size_blocks sz * 65536 \<or>
             2 ^ 32 \<le> uint p + release_size_blocks sz * 65536
     then Inl UndefinedBehaviour
     else if uint (aligned_pool_start c) + STATIC_POOL_SIZE c
               < uint p + release_size_blocks sz * 65536
     then Inr (1, m)
     else if \<not> 65536 dvd uint p then Inl AssertFailed
     else Inr (0, set_blocks m (nat ((uint p - uint (aligned_pool_start c)) div 65536))
                   (nat (release_size_blocks sz)) 0))"
proof -
  let ?sb = "release_size_blocks sz"
  let ?a = "aligned_pool_start c"
  let ?n = "STATIC_POOL_MAX_ENTRIES c"
  let ?i = "(uint p - uint ?a) div 65536"
  let ?index = "word_of_int (sint (p - ?a) sdiv 65536) :: 32 word"
  have as: "pool_start_assert c ?a" by (rule pool_start_assert_ok [OF c])
  have sb0: "0 \<le> ?sb" and sb1: "?sb \<le> 65536"
    by (simp_all only: release_size_blocks_range)
  have pe: "uint (?a + word_of_int (STATIC_POOL_SIZE c)) = uint ?a + STATIC_POOL_SIZE c"
    using config_okD(1,2) [OF c] by (intro pool_addr_uint [OF c]) simp_all
  have below: "p < ?a \<longleftrightarrow> uint p < uint ?a" by (simp only: word_less_def)
  have al: "p AND word_of_int STATIC_POOL_BLOCK_SIZE_MASK \<noteq> 0 \<longleftrightarrow> \<not> 65536 dvd uint p"
    using block_aligned_uint [of p] by (simp add: STATIC_POOL_BLOCK_SIZE_MASK_def)
  show ?thesis
  proof (cases "?sb = 0")
    case True
    then show ?thesis by (simp add: lj_release_to_static_pool_def)
  next
    case nz: False
    with sb0 have sbp: "1 \<le> ?sb" by linarith
    show ?thesis
    proof (cases "uint p < uint ?a")
      case True
      with below have "p < ?a" by simp
      with nz as True show ?thesis
        by (simp add: lj_release_to_static_pool_def Let_def)
    next
      case ge: False
      with below have nlt: "\<not> p < ?a" by simp
      from ge have ap: "uint ?a \<le> uint p" by simp
      show ?thesis
      proof (cases "2 ^ 31 \<le> ?sb * 65536 \<or> 2 ^ 32 \<le> uint p + ?sb * 65536")
        case True
        with nz as nlt ge show ?thesis
          by (simp add: lj_release_to_static_pool_def Let_def)
      next
        case def: False
        then have sum: "uint p + ?sb * 65536 < 2 ^ 32" by simp
        have "0 \<le> uint p + ?sb * 65536" using sbp uint_ge_0 [of p] by simp
        with sum have md: "(uint p + ?sb * 65536) mod 2 ^ 32 = uint p + ?sb * 65536"
          by (intro mod_pos_pos_trivial)
        have ue: "uint (p + word_of_int (?sb * 65536)) = uint p + ?sb * 65536"
          by (simp only: uint_plus_word_of_int md)
        have bounds: "?a + word_of_int (STATIC_POOL_SIZE c) < p + word_of_int (?sb * 65536)
            \<longleftrightarrow> uint ?a + STATIC_POOL_SIZE c < uint p + ?sb * 65536"
          by (simp only: word_less_def pe ue)
        show ?thesis
        proof (cases "uint ?a + STATIC_POOL_SIZE c < uint p + ?sb * 65536")
          case True
          with bounds have "?a + word_of_int (STATIC_POOL_SIZE c) < p + word_of_int (?sb * 65536)"
            by simp
          with nz as nlt ge def True show ?thesis
            by (simp add: lj_release_to_static_pool_def Let_def)
        next
          case inb: False
          with bounds have nb: "\<not> ?a + word_of_int (STATIC_POOL_SIZE c)
              < p + word_of_int (?sb * 65536)"
            by simp
          show ?thesis
          proof (cases "65536 dvd uint p")
            case False
            with al have "p AND word_of_int STATIC_POOL_BLOCK_SIZE_MASK \<noteq> 0" by simp
            with nz as nlt ge def nb inb False show ?thesis
              by (simp add: lj_release_to_static_pool_def Let_def)
          next
            case pa: True
            with al have al': "p AND word_of_int STATIC_POOL_BLOCK_SIZE_MASK = 0" by simp
            define i where "i = ?i"
            have p: "uint p = uint ?a + i * 65536"
              unfolding i_def
              by (rule aligned_offset [OF pa aligned_pool_start_bounds(3) [OF c]])
            from inb p have e: "(i + ?sb) * 65536 \<le> STATIC_POOL_SIZE c"
              by (simp add: algebra_simps)
            with config_okD(8) [OF c] have "(i + ?sb) * 65536 < (?n + 1) * 65536"
              by (simp add: algebra_simps)
            then have "i + ?sb < ?n + 1" by simp
            then have fit: "i + ?sb \<le> ?n" by simp
            have "i * 65536 \<le> STATIC_POOL_SIZE c" using e sbp by (simp add: algebra_simps)
            with p config_okD(3) [OF c] have pd: "\<not> 2 ^ 31 \<le> uint p - uint ?a" by simp
            have n0: "0 \<le> ?n" using config_okD(6) [OF c] by simp
            note ri = release_index [OF ap pa aligned_pool_start_bounds(3) [OF c] sbp sb1 n0
                max_entries_small [OF c]]
            have fit': "?i + ?sb \<le> ?n" using fit unfolding i_def .
            with ri(1) have ok: "?index < word_of_int ?n"
              "?index + word_of_int ?sb \<le> word_of_int ?n"
              by simp_all
            from ri(2) [OF fit'] have ui: "sint ?index = ?i"
              and ul: "uint (?index + word_of_int ?sb) = ?i + ?sb"
              by simp_all
            define lim where "lim = ?index + word_of_int ?sb"
            have i0: "0 \<le> i" unfolding i_def by (rule ri(4))
            have ul': "uint lim = i + ?sb" unfolding i_def lim_def by (rule ul)
            have "release_mark m i lim = Inr (set_blocks m (nat i) (nat (uint lim - i)) 0)"
            proof (rule release_mark_eq)
              show "0 \<le> i" by (rule i0)
              show "i \<le> uint lim" using ul' sbp by linarith
              show "uint lim \<le> int (length m)" using ul' fit len by linarith
            qed
            moreover have "uint lim - i = ?sb" using ul' by linarith
            ultimately have "release_mark m i lim = Inr (set_blocks m (nat i) (nat ?sb) 0)"
              by (simp only:)
            then have rm: "release_mark m (sint ?index) (?index + word_of_int ?sb)
                = Inr (set_blocks m (nat ?i) (nat ?sb) 0)"
              unfolding i_def lim_def by (simp only: ui)
            have "?n \<le> int (length (set_blocks m (nat ?i) (nat ?sb) 0))"
              using len by simp
            from count_used_ok [OF _ this, of 0 0] obtain u
              where u: "count_used c (set_blocks m (nat ?i) (nat ?sb) 0) 0 0 = Inr u" by auto
            from nz as nlt ge def nb inb al' pa pd ok rm u show ?thesis
              by (simp add: lj_release_to_static_pool_def Let_def)
          qed
        qed
      qed
    qed
  qed
qed

lemma release_in_range:
  assumes c: "config_ok c" and len: "int (length m) = STATIC_POOL_MAX_ENTRIES c"
    and i0: "0 \<le> i" and sb: "1 \<le> release_size_blocks sz"
    and fit: "i + release_size_blocks sz \<le> STATIC_POOL_MAX_ENTRIES c"
    and p: "uint p = uint (aligned_pool_start c) + i * 65536"
  shows "lj_release_to_static_pool c p sz m
           = Inr (0, set_blocks m (nat i) (nat (release_size_blocks sz)) 0)"
proof -
  let ?sb = "release_size_blocks sz"
  let ?a = "aligned_pool_start c"
  have q: "(uint p - uint ?a) div 65536 = i" unfolding p by simp
  have d: "65536 dvd uint p"
    unfolding p using aligned_pool_start_bounds(3) [OF c] by simp
  have "(i + ?sb) * 65536 \<le> STATIC_POOL_MAX_ENTRIES c * 65536" using fit by simp
  then have e: "i * 65536 + ?sb * 65536 \<le> STATIC_POOL_SIZE c"
    using config_okD(7) [OF c] by (simp add: algebra_simps)
  from e i0 config_okD(3) [OF c] have n1: "\<not> 2 ^ 31 \<le> ?sb * 65536" by simp
  have n2: "\<not> 2 ^ 32 \<le> uint p + ?sb * 65536"
    using e p aligned_pool_start_bounds(5) [OF c] by simp
  have n0: "\<not> uint p < uint ?a" using p i0 by simp
  have n3: "\<not> uint ?a + STATIC_POOL_SIZE c < uint p + ?sb * 65536"
    using p e by simp
  from sb have nz: "?sb \<noteq> 0" by simp
  show ?thesis
    unfolding release_closed [OF c len] using nz n0 n1 n2 n3 d
    by (simp only: q if_True if_False simp_thms)
qed

text \<open>Where the call is defined, a release before the aligned base or ending beyond the
  pool returns 1 and leaves the map as it was.\<close>

lemma release_rejects_defined:
  assumes c: "config_ok c" and len: "int (length m) = STATIC_POOL_MAX_ENTRIES c"
    and out: "uint p < uint (aligned_pool_start c) \<or>
         uint (aligned_pool_start c) + STATIC_POOL_SIZE c
           < uint p + release_size_blocks sz * 65536"
    and def: "lj_release_to_static_pool c p sz m \<noteq> Inl UndefinedBehaviour"
  shows "lj_release_to_static_pool c p sz m = Inr (1, m)"
  using out def unfolding release_closed [OF c len] by (auto split: if_splits)

lemma set_blocks_one: "s < length m \<Longrightarrow> set_blocks m s (Suc 0) v = m[s := v]"
  by (rule nth_equalityI) (auto simp: nth_set_blocks nth_list_update)

lemma half_block: "alloc_size_blocks 32768 = 1" "release_size_blocks 32768 = 1"
  by (simp_all add: alloc_size_blocks_def release_size_blocks_def STATIC_POOL_BLOCK_SIZE_MASK_def)

lemma alloc_no_fault:
  assumes c: "config_ok c" and len: "int (length m) = STATIC_POOL_MAX_ENTRIES c"
  shows "\<exists>p m'. lj_alloc_from_static_pool c mp sz prot m = Inr (p, m')"
  using alloc_closed [OF c len, of mp sz prot]
    alloc_grant_cases [of c mp prot "alloc_size_blocks sz" m
      "int (LEAST s. blocks_free m s (nat (alloc_size_blocks sz)))"]
  by (auto split: if_splits)

section \<open>The invariant of a sequence of calls\<close>

lemma disjoint_held_append:
  "disjoint_held c (xs @ ys) \<longleftrightarrow>
     disjoint_held c xs \<and> disjoint_held c ys \<and>
     (\<Union>x \<in> set xs. blocks_of c x) \<inter> (\<Union>y \<in> set ys. blocks_of c y) = {}"
  by (induction xs) auto

lemma blocks_of_granted:
  assumes "fst h \<noteq> 0"
    and "uint (fst h) = uint (aligned_pool_start c) + int s * 65536"
  shows "blocks_of c h = {s ..< s + nat (alloc_size_blocks (snd h))}"
proof -
  have "(uint (fst h) - uint (aligned_pool_start c)) div 65536 = int s"
    unfolding assms(2) by simp
  with assms(1) show ?thesis by (simp add: blocks_of_def)
qed

lemma alloc_null:
  assumes c: "config_ok c" and len: "int (length m) = STATIC_POOL_MAX_ENTRIES c"
    and r: "lj_alloc_from_static_pool c mp sz prot m = Inr (0, m')"
  shows "m' = m"
proof -
  let ?sb = "alloc_size_blocks sz"
  define s0 where "s0 = (LEAST s. blocks_free m s (nat ?sb))"
  show ?thesis
  proof (cases "?sb \<noteq> 0 \<and> (\<exists>s. blocks_free m s (nat ?sb))")
    case False
    with alloc_closed [OF c len, of mp sz prot] r show ?thesis by (auto split: if_splits)
  next
    case True
    then have f: "blocks_free m s0 (nat ?sb)" unfolding s0_def by (auto intro: LeastI)
    from True alloc_closed [OF c len, of mp sz prot]
    have e: "lj_alloc_from_static_pool c mp sz prot m = alloc_grant c mp prot ?sb m (int s0)"
      by (simp add: s0_def)
    have "0 \<le> ?sb" by (simp only: alloc_size_blocks_ceil size_blocks_range)
    have "s0 + nat ?sb \<le> length m" using f by (simp add: blocks_free_def)
    then have "int s0 \<le> STATIC_POOL_MAX_ENTRIES c" using len by linarith
    then have "int s0 * 65536 \<le> STATIC_POOL_SIZE c"
      using config_okD(7) [OF c] by linarith
    then have "uint (aligned_pool_start c + word_of_int (int s0 * 65536))
        = uint (aligned_pool_start c) + int s0 * 65536"
      by (intro pool_addr_uint [OF c]) simp_all
    with aligned_pool_start_bounds(4) [OF c]
    have "0 < uint (aligned_pool_start c + word_of_int (int s0 * 65536))" by simp
    then have "aligned_pool_start c + word_of_int (int s0 * 65536) \<noteq> 0" by auto
    with e r show ?thesis
      by (auto simp: alloc_grant_def Let_def split: if_splits)
  qed
qed

lemma release_null:
  assumes c: "config_ok c" and len: "int (length m) = STATIC_POOL_MAX_ENTRIES c"
  shows "lj_release_to_static_pool c 0 sz m = Inr (1, m)"
  using release_closed [OF c len, of 0 sz] aligned_pool_start_bounds(4) [OF c]
  by simp

lemma pool_inv_acquire:
  assumes c: "config_ok c" and inv: "pool_inv c m held"
    and r: "lj_alloc_from_static_pool c mp sz prot m = Inr (p, m')"
  shows "pool_inv c m' (held @ [(p, sz)])"
proof -
  from inv have len: "int (length m) = STATIC_POOL_MAX_ENTRIES c"
    and gr: "\<forall>h \<in> set held. fst h \<noteq> 0 \<longrightarrow> granted c h"
    and dj: "disjoint_held c held"
    and cov: "\<forall>i < length m. m ! i = (if i \<in> (\<Union>x \<in> set held. blocks_of c x) then 1 else 0)"
    by (simp_all add: pool_inv_def)
  show ?thesis
  proof (cases "p = 0")
    case True
    with r alloc_null [OF c len] have "m' = m" by blast
    moreover from True have "blocks_of c (p, sz) = {}" by (simp add: blocks_of_def)
    ultimately show ?thesis
      using True len gr dj cov by (simp add: pool_inv_def disjoint_held_append)
  next
    case False
    let ?b = "nat (alloc_size_blocks sz)"
    from alloc_success [OF c len r False] obtain s
      where f: "blocks_free m s ?b" and b: "1 \<le> alloc_size_blocks sz"
        and u: "uint p = uint (aligned_pool_start c) + int s * 65536"
        and m': "m' = set_blocks m s ?b 1"
      by blast
    from f have fit: "s + ?b \<le> length m" and free: "\<forall>i \<in> {s ..< s + ?b}. m ! i = 0"
      by (simp_all add: blocks_free_def)
    have bo: "blocks_of c (p, sz) = {s ..< s + ?b}"
      using blocks_of_granted [of "(p, sz)" c s] False u by simp
    from fit len b have "int s + alloc_size_blocks sz \<le> STATIC_POOL_MAX_ENTRIES c"
      by linarith
    with u b have g: "granted c (p, sz)"
      unfolding granted_def by auto
    have new: "{s ..< s + ?b} \<inter> (\<Union>x \<in> set held. blocks_of c x) = {}"
    proof (rule ccontr)
      assume "{s ..< s + ?b} \<inter> (\<Union>x \<in> set held. blocks_of c x) \<noteq> {}"
      then obtain i where i: "i \<in> {s ..< s + ?b}" and ii: "i \<in> (\<Union>x \<in> set held. blocks_of c x)"
        by blast
      from i fit have "i < length m" by simp
      with cov ii have "m ! i = 1" by simp
      moreover from free i have "m ! i = 0" by blast
      ultimately show False by simp
    qed
    have cov': "\<forall>i < length m'. m' ! i =
        (if i \<in> (\<Union>x \<in> set (held @ [(p, sz)]). blocks_of c x) then 1 else 0)"
    proof (intro allI impI)
      fix i assume "i < length m'"
      then have i: "i < length m" by (simp add: m')
      then have "m' ! i = (if s \<le> i \<and> i < s + ?b then 1 else m ! i)"
        by (simp add: m' nth_set_blocks)
      with cov i bo show "m' ! i =
          (if i \<in> (\<Union>x \<in> set (held @ [(p, sz)]). blocks_of c x) then 1 else 0)"
        by auto
    qed
    have "disjoint_held c (held @ [(p, sz)])"
      using dj new bo by (simp add: disjoint_held_append Int_commute)
    moreover have "\<forall>h \<in> set (held @ [(p, sz)]). fst h \<noteq> 0 \<longrightarrow> granted c h"
      using gr g by auto
    moreover have "int (length m') = STATIC_POOL_MAX_ENTRIES c" using len by (simp add: m')
    ultimately show ?thesis using cov' unfolding pool_inv_def by blast
  qed
qed

lemma pool_inv_release:
  assumes c: "config_ok c" and inv: "pool_inv c m held" and k: "k < length held"
  shows "\<exists>r m'. lj_release_to_static_pool c (fst (held ! k)) (snd (held ! k)) m = Inr (r, m') \<and>
           pool_inv c m' (take k held @ drop (Suc k) held)"
proof -
  let ?h = "held ! k"
  let ?rest = "take k held @ drop (Suc k) held"
  from inv have len: "int (length m) = STATIC_POOL_MAX_ENTRIES c"
    and gr: "\<forall>h \<in> set held. fst h \<noteq> 0 \<longrightarrow> granted c h"
    and dj: "disjoint_held c held"
    and cov: "\<forall>i < length m. m ! i = (if i \<in> (\<Union>x \<in> set held. blocks_of c x) then 1 else 0)"
    by (simp_all add: pool_inv_def)
  have split: "held = take k held @ ?h # drop (Suc k) held"
    using k by (rule id_take_nth_drop)
  have sub: "set ?rest \<subseteq> set held"
    using set_take_subset [of k held] set_drop_subset [of "Suc k" held] by auto
  have un: "(\<Union>x \<in> set held. blocks_of c x) = blocks_of c ?h \<union> (\<Union>x \<in> set ?rest. blocks_of c x)"
    by (subst split) auto
  from dj have "disjoint_held c (take k held @ ?h # drop (Suc k) held)"
    using split by simp
  then have dj': "disjoint_held c ?rest"
    and away: "blocks_of c ?h \<inter> (\<Union>x \<in> set ?rest. blocks_of c x) = {}"
    by (auto simp: disjoint_held_append)
  from gr sub have gr': "\<forall>h \<in> set ?rest. fst h \<noteq> 0 \<longrightarrow> granted c h" by blast
  show ?thesis
  proof (cases "fst ?h = 0")
    case True
    then have "blocks_of c ?h = {}" by (simp add: blocks_of_def)
    with un cov have "\<forall>i < length m. m ! i =
        (if i \<in> (\<Union>x \<in> set ?rest. blocks_of c x) then 1 else 0)"
      by simp
    with len gr' dj' have "pool_inv c m ?rest" unfolding pool_inv_def by blast
    with release_null [OF c len, of "snd ?h"] True show ?thesis by auto
  next
    case False
    let ?b = "nat (alloc_size_blocks (snd ?h))"
    from k have "?h \<in> set held" by simp
    with gr False have "granted c ?h" by blast
    then obtain s where u: "uint (fst ?h) = uint (aligned_pool_start c) + int s * 65536"
      and b: "1 \<le> alloc_size_blocks (snd ?h)"
      and fit: "int s + alloc_size_blocks (snd ?h) \<le> STATIC_POOL_MAX_ENTRIES c"
      unfolding granted_def by blast
    have e: "release_size_blocks (snd ?h) = alloc_size_blocks (snd ?h)"
      by (simp only: release_size_blocks_ceil alloc_size_blocks_ceil)
    have bo: "blocks_of c ?h = {s ..< s + ?b}"
      by (rule blocks_of_granted [OF False u])
    let ?m' = "set_blocks m s ?b 0"
    have rel: "lj_release_to_static_pool c (fst ?h) (snd ?h) m = Inr (0, ?m')"
      using release_in_range [OF c len _ _ _ u, of "snd ?h"] b fit e by simp
    have "\<forall>i < length ?m'. ?m' ! i =
        (if i \<in> (\<Union>x \<in> set ?rest. blocks_of c x) then 1 else 0)"
    proof (intro allI impI)
      fix i assume "i < length ?m'"
      then have i: "i < length m" by simp
      then have v: "?m' ! i = (if s \<le> i \<and> i < s + ?b then 0 else m ! i)"
        by (simp add: nth_set_blocks)
      show "?m' ! i = (if i \<in> (\<Union>x \<in> set ?rest. blocks_of c x) then 1 else 0)"
      proof (cases "i \<in> blocks_of c ?h")
        case True
        with away have "i \<notin> (\<Union>x \<in> set ?rest. blocks_of c x)" by blast
        with True v bo show ?thesis by simp
      next
        case False
        with un have eq: "i \<in> (\<Union>x \<in> set held. blocks_of c x)
            \<longleftrightarrow> i \<in> (\<Union>x \<in> set ?rest. blocks_of c x)"
          by blast
        from False bo have "\<not> (s \<le> i \<and> i < s + ?b)" by simp
        with v have "?m' ! i = m ! i" by (simp only: if_False)
        also from cov i have "\<dots> = (if i \<in> (\<Union>x \<in> set held. blocks_of c x) then 1 else 0)"
          by blast
        finally show ?thesis by (simp only: eq)
      qed
    qed
    moreover have "int (length ?m') = STATIC_POOL_MAX_ENTRIES c" using len by simp
    ultimately have "pool_inv c ?m' ?rest"
      using gr' dj' unfolding pool_inv_def by blast
    with rel show ?thesis by blast
  qed
qed

lemma run_calls_inv:
  assumes c: "config_ok c"
  shows "pool_inv c m held \<Longrightarrow>
     \<exists>m' held'. run_calls c calls m held = Inr (m', held') \<and> pool_inv c m' held'"
proof (induction calls arbitrary: m held)
  case Nil
  then show ?case by simp
next
  case (Cons call calls)
  from Cons.prems have len: "int (length m) = STATIC_POOL_MAX_ENTRIES c"
    by (simp add: pool_inv_def)
  show ?case
  proof (cases call)
    case (Acquire sz prot ok)
    from alloc_no_fault [OF c len, of "\<lambda>a n prot. if ok then 0 else - 1" sz prot]
    obtain p m1 where r: "lj_alloc_from_static_pool c (\<lambda>a n prot. if ok then 0 else - 1) sz prot m
        = Inr (p, m1)"
      by blast
    from pool_inv_acquire [OF c Cons.prems r] have "pool_inv c m1 (held @ [(p, sz)])" .
    from Cons.IH [OF this] r Acquire show ?thesis by simp
  next
    case (Release k)
    show ?thesis
    proof (cases "k < length held")
      case True
      from pool_inv_release [OF c Cons.prems True] obtain r m1
        where r: "lj_release_to_static_pool c (fst (held ! k)) (snd (held ! k)) m = Inr (r, m1)"
          and i: "pool_inv c m1 (take k held @ drop (Suc k) held)"
        by blast
      from Cons.IH [OF i] r True Release show ?thesis by simp
    next
      case False
      with Cons.IH [OF Cons.prems] Release show ?thesis by simp
    qed
  qed
qed

lemma pool_inv_initial:
  assumes "config_ok c"
  shows "pool_inv c (replicate (nat (STATIC_POOL_MAX_ENTRIES c)) 0) []"
  using config_okD(6) [OF assms] by (simp add: pool_inv_def)

lemma pool_inv_all_released:
  assumes "pool_inv c m held" and "\<forall>h \<in> set held. fst h = 0"
  shows "m = replicate (nat (STATIC_POOL_MAX_ENTRIES c)) 0"
proof -
  from assms(2) have "(\<Union>x \<in> set held. blocks_of c x) = {}"
    by (simp add: blocks_of_def)
  with assms(1) have z: "\<forall>i < length m. m ! i = 0" and len: "int (length m) = STATIC_POOL_MAX_ENTRIES c"
    by (simp_all add: pool_inv_def)
  from len have "length m = nat (STATIC_POOL_MAX_ENTRIES c)" by linarith
  with z show ?thesis by (intro nth_equalityI) simp_all
qed

section \<open>The example pool\<close>

lemma example_pool_ok: "config_ok example_pool"
  by (simp add: example_pool_def config_ok_def sizeof_static_alloc_pool_def STATIC_POOL_SIZE_def
      STATIC_POOL_MIN_BLOCK_SIZE_KB_def)

lemma example_pool_entries: "STATIC_POOL_MAX_ENTRIES example_pool = 8"
  by (simp add: example_pool_def STATIC_POOL_MAX_ENTRIES_def STATIC_POOL_MIN_BLOCK_SIZE_KB_def)

lemma example_pool_size: "STATIC_POOL_SIZE example_pool = 524288"
  by (simp add: example_pool_def STATIC_POOL_SIZE_def)

lemma example_pool_start: "aligned_pool_start example_pool = 0x70010000"
  by (simp add: example_pool_def aligned_pool_start_def)

lemma example_len: "int (length [a, b, c, d, e, f, g, h :: int]) = STATIC_POOL_MAX_ENTRIES example_pool"
  by (simp add: example_pool_entries)

lemma example_grant:
  "lj_alloc_from_static_pool example_pool (\<lambda>a n prot. 0) 131072 7 [1, 0, 0, 1, 0, 0, 0, 1]
     = Inr (0x70020000, [1, 1, 1, 1, 0, 0, 0, 1])"
  by code_simp

section \<open>The claims\<close>

text \<open>
  C8. For every start address at which the backing region can lie, the aligned base is
  the start rounded up to the next multiple of the block size: it is not below the
  region's start, and the pool of \<^verbatim>\<open>STATIC_POOL_SIZE\<close> bytes from it ends within the
  region, whose capacity is the pool and one more block.
\<close>

theorem aligned_base_within_region:
  assumes "config_ok c"
  shows "uint (static_alloc_pool c) \<le> uint (aligned_pool_start c) \<and>
         uint (aligned_pool_start c) + STATIC_POOL_SIZE c
           \<le> uint (static_alloc_pool c) + sizeof_static_alloc_pool c \<and>
         sizeof_static_alloc_pool c = STATIC_POOL_SIZE c + STATIC_POOL_MIN_BLOCK_SIZE \<and>
         STATIC_POOL_MIN_BLOCK_SIZE dvd uint (aligned_pool_start c) \<and>
         uint (aligned_pool_start c) < uint (static_alloc_pool c) + STATIC_POOL_MIN_BLOCK_SIZE"
  using aligned_pool_start_bounds(1,2,3) [OF assms]
  by (simp add: sizeof_static_alloc_pool_def)

theorem aligned_base_within_region_witness:
  "config_ok \<lparr>LJ_ANDROID_MCODE_STATIC_POOL_KB = 512, static_alloc_pool = 0x70001000\<rparr> \<and>
   aligned_pool_start \<lparr>LJ_ANDROID_MCODE_STATIC_POOL_KB = 512, static_alloc_pool = 0x70001000\<rparr>
     = 0x70010000 \<and>
   uint (0x70001000 :: 32 word) \<le> uint (0x70010000 :: 32 word) \<and>
   uint (0x70010000 :: 32 word) + 512 * 1024 \<le> uint (0x70001000 :: 32 word) + (512 * 1024 + 65536)"
proof -
  let ?c = "\<lparr>LJ_ANDROID_MCODE_STATIC_POOL_KB = 512, static_alloc_pool = 0x70001000\<rparr>"
  have ok: "config_ok ?c"
    by (simp add: config_ok_def sizeof_static_alloc_pool_def STATIC_POOL_SIZE_def
        STATIC_POOL_MIN_BLOCK_SIZE_KB_def)
  have a: "aligned_pool_start ?c = 0x70010000"
    by (simp add: aligned_pool_start_def)
  from aligned_base_within_region [OF ok] ok a show ?thesis
    by (simp add: sizeof_static_alloc_pool_def STATIC_POOL_SIZE_def)
qed


text \<open>
  C1. With \<open>mprotect\<close> succeeding and a positive block count \<open>b\<close>, the size rounded up
  to blocks, the call returns \<^verbatim>\<open>NULL\<close> exactly when no run of \<open>b\<close> free blocks exists;
  otherwise it returns the address of the lowest start index whose run is free, and marks
  that run.
\<close>

theorem acquire_first_fit:
  assumes "config_ok c"
    and "int (length m) = STATIC_POOL_MAX_ENTRIES c"
    and "\<forall>a n. mprotect a n prot = 0"
    and "b = nat (alloc_size_blocks sz)"
    and "0 < b"
  shows "uint sz \<le> int b * 65536 \<and> int b * 65536 < uint sz + 65536 \<and>
    (\<exists>p m'. lj_alloc_from_static_pool c mprotect sz prot m = Inr (p, m') \<and>
       (p = 0 \<longleftrightarrow> \<not> (\<exists>s. blocks_free m s b)) \<and>
       (\<forall>s. blocks_free m s b \<and> (\<forall>t < s. \<not> blocks_free m t b) \<longrightarrow>
          p = aligned_pool_start c + word_of_int (int s * STATIC_POOL_MIN_BLOCK_SIZE) \<and>
          m' = set_blocks m s b 1))"
proof -
  let ?sb = "alloc_size_blocks sz"
  have nz: "?sb \<noteq> 0" and ib: "int b = ?sb" and nb: "nat ?sb = b"
    using assms(4,5) by simp_all
  have c1: "uint sz \<le> int b * 65536 \<and> int b * 65536 < uint sz + 65536"
    unfolding ib alloc_size_blocks_ceil using ceil_div_block_bounds [of "uint sz"] by simp
  have res: "lj_alloc_from_static_pool c mprotect sz prot m =
     (if \<exists>s. blocks_free m s b
      then alloc_grant c mprotect prot ?sb m (int (LEAST s. blocks_free m s b))
      else Inr (0, m))"
    using alloc_closed [OF assms(1,2), of mprotect sz prot] nz by (simp only: nb if_False)
  show ?thesis
  proof (cases "\<exists>s. blocks_free m s b")
    case False
    with res c1 show ?thesis by simp
  next
    case True
    define s0 where "s0 = (LEAST s. blocks_free m s b)"
    let ?p = "aligned_pool_start c + word_of_int (int s0 * 65536)"
    from True have f: "blocks_free m s0 b"
      unfolding s0_def by (auto intro: LeastI)
    have least: "s = s0" if "blocks_free m s b" "\<forall>t < s. \<not> blocks_free m t b" for s
    proof -
      from that(1) have "s0 \<le> s" unfolding s0_def by (rule Least_le)
      moreover from that(2) f have "\<not> s0 < s" by blast
      ultimately show ?thesis by simp
    qed
    from res True assms(3)
    have r: "lj_alloc_from_static_pool c mprotect sz prot m = Inr (?p, set_blocks m s0 b 1)"
      by (simp add: alloc_grant_def nb s0_def)
    have "s0 + b \<le> length m"
      using f by (simp add: blocks_free_def)
    then have "int s0 + int b \<le> STATIC_POOL_MAX_ENTRIES c"
      using assms(2) by linarith
    then have "int s0 * 65536 \<le> STATIC_POOL_SIZE c"
      using config_okD(7) [OF assms(1)] by linarith
    then have "uint ?p = uint (aligned_pool_start c) + int s0 * 65536"
      by (intro pool_addr_uint [OF assms(1)]) simp_all
    with aligned_pool_start_bounds(4) [OF assms(1)] have "0 < uint ?p" by simp
    then have pnz: "?p \<noteq> 0" by auto
    have "\<forall>s. blocks_free m s b \<and> (\<forall>t < s. \<not> blocks_free m t b) \<longrightarrow>
          ?p = aligned_pool_start c + word_of_int (int s * STATIC_POOL_MIN_BLOCK_SIZE) \<and>
          set_blocks m s0 b 1 = set_blocks m s b 1"
      using least by auto
    with c1 r pnz True show ?thesis by simp
  qed
qed

theorem acquire_first_fit_witness:
  "config_ok \<lparr>LJ_ANDROID_MCODE_STATIC_POOL_KB = 512, static_alloc_pool = 0x70001000\<rparr> \<and>
   blocks_free [1, 0, 0, 1, 0, 0, 0, 1] 1 2 \<and> blocks_free [1, 0, 0, 1, 0, 0, 0, 1] 4 2 \<and>
   \<not> blocks_free [1, 0, 0, 1, 0, 0, 0, 1] 0 2 \<and>
   lj_alloc_from_static_pool
       \<lparr>LJ_ANDROID_MCODE_STATIC_POOL_KB = 512, static_alloc_pool = 0x70001000\<rparr>
       (\<lambda>a n prot. 0) 131072 7 [1, 0, 0, 1, 0, 0, 0, 1]
     = Inr (0x70020000, [1, 1, 1, 1, 0, 0, 0, 1])"
proof -
  let ?c = "\<lparr>LJ_ANDROID_MCODE_STATIC_POOL_KB = 512, static_alloc_pool = 0x70001000\<rparr>"
  let ?m = "[1, 0, 0, 1, 0, 0, 0, 1] :: int list"
  have ok: "config_ok ?c"
    by (simp add: config_ok_def sizeof_static_alloc_pool_def STATIC_POOL_SIZE_def
        STATIC_POOL_MIN_BLOCK_SIZE_KB_def)
  have len: "int (length ?m) = STATIC_POOL_MAX_ENTRIES ?c"
    by (simp add: STATIC_POOL_MAX_ENTRIES_def STATIC_POOL_MIN_BLOCK_SIZE_KB_def)
  have b: "2 = nat (alloc_size_blocks 131072)"
    by (simp add: alloc_size_blocks_def STATIC_POOL_BLOCK_SIZE_MASK_def)
  have f1: "blocks_free ?m 1 2" and f4: "blocks_free ?m 4 2" and f0: "\<not> blocks_free ?m 0 2"
    by code_simp+
  have first: "\<forall>t < 1. \<not> blocks_free ?m t 2"
    using f0 by simp
  have a: "aligned_pool_start ?c + word_of_int (int 1 * STATIC_POOL_MIN_BLOCK_SIZE) = 0x70020000"
    by (simp add: aligned_pool_start_def)
  have s: "set_blocks ?m 1 2 1 = [1, 1, 1, 1, 0, 0, 0, 1]"
    by code_simp
  have pos: "0 < (2 :: nat)" by simp
  have mp: "\<forall>(a :: 32 word) (n :: int). (0 :: int) = 0" by simp
  note th = acquire_first_fit [where c = ?c and m = ?m and mprotect = "\<lambda>a n prot. 0"
      and prot = 7 and b = 2 and sz = 131072, OF ok len mp b pos]
  from th obtain p m'
    where r: "lj_alloc_from_static_pool ?c (\<lambda>a n prot. 0) 131072 7 ?m = Inr (p, m')"
      and imp: "\<forall>s. blocks_free ?m s 2 \<and> (\<forall>t < s. \<not> blocks_free ?m t 2) \<longrightarrow>
          p = aligned_pool_start ?c + word_of_int (int s * STATIC_POOL_MIN_BLOCK_SIZE) \<and>
          m' = set_blocks ?m s 2 1"
    by blast
  from imp [rule_format, of 1] f1 first
  have "p = aligned_pool_start ?c + word_of_int (int 1 * STATIC_POOL_MIN_BLOCK_SIZE)"
    and "m' = set_blocks ?m 1 2 1"
    by blast+
  with r a s ok f1 f4 f0 show ?thesis by (simp only:) simp
qed

text \<open>
  C2. From the all-free map, after any sequence of acquires and releases in which every
  release passes an address obtained from an acquire with the size of that acquire, and
  no address is released twice, the calls all return; once every granted address has been
  released (only \<^verbatim>\<open>NULL\<close> results, if any, are still held), the map is all-free again.
  This holds for any sizes, so in particular when the blocks asked for total at most the
  number of blocks of the pool.
\<close>

theorem round_trip:
  assumes "config_ok c"
  shows "\<exists>m held.
     run_calls c calls (replicate (nat (STATIC_POOL_MAX_ENTRIES c)) 0) [] = Inr (m, held) \<and>
     ((\<forall>h \<in> set held. fst h = 0) \<longrightarrow> m = replicate (nat (STATIC_POOL_MAX_ENTRIES c)) 0)"
proof -
  from run_calls_inv [OF assms pool_inv_initial [OF assms], of calls]
  obtain m held
    where r: "run_calls c calls (replicate (nat (STATIC_POOL_MAX_ENTRIES c)) 0) [] = Inr (m, held)"
      and i: "pool_inv c m held"
    by blast
  from pool_inv_all_released [OF i] r show ?thesis by blast
qed

theorem round_trip_witness:
  "run_calls example_pool
     [Acquire 65536 7 True, Acquire 131072 7 True, Acquire 32768 7 True, Release 1,
      Acquire 65536 7 True, Release 0, Release 0, Release 0]
     (replicate (nat (STATIC_POOL_MAX_ENTRIES example_pool)) 0) []
     = Inr ([0, 0, 0, 0, 0, 0, 0, 0], []) \<and>
   run_calls example_pool
     [Acquire 65536 7 False, Acquire 131072 7 True, Release 1]
     (replicate (nat (STATIC_POOL_MAX_ENTRIES example_pool)) 0) []
     = Inr (replicate (nat (STATIC_POOL_MAX_ENTRIES example_pool)) 0, [(0, 65536)])"
proof -
  let ?init = "replicate (nat (STATIC_POOL_MAX_ENTRIES example_pool)) (0 :: int)"
  let ?calls = "[Acquire 65536 7 True, Acquire 131072 7 True, Acquire 32768 7 True, Release 1,
      Acquire 65536 7 True, Release 0, Release 0, Release 0]"
  let ?calls2 = "[Acquire 65536 7 False, Acquire 131072 7 True, Release 1]"
  have i: "?init = [0, 0, 0, 0, 0, 0, 0, 0]"
    by (simp add: example_pool_entries numeral_eq_Suc)
  have e: "run_calls example_pool ?calls ?init [] = Inr ([0, 0, 0, 0, 0, 0, 0, 0], [])"
    by code_simp
  from round_trip [OF example_pool_ok, of ?calls] e
  have "run_calls example_pool ?calls ?init [] = Inr (?init, [])"
    by auto
  with i have 1: "run_calls example_pool ?calls ?init [] = Inr ([0, 0, 0, 0, 0, 0, 0, 0], [])"
    by simp
  have e2: "run_calls example_pool ?calls2 ?init [] = Inr ([0, 0, 0, 0, 0, 0, 0, 0], [(0, 65536)])"
    by code_simp
  from round_trip [OF example_pool_ok, of ?calls2] e2
  have 2: "run_calls example_pool ?calls2 ?init [] = Inr (?init, [(0, 65536)])"
    by auto
  from 1 2 show ?thesis by blast
qed

text \<open>
  C3. When a fitting free run exists and \<open>mprotect\<close> fails on the range chosen for it
  (the lowest free run), the call returns \<^verbatim>\<open>NULL\<close> and the map is exactly as before.
\<close>

theorem mprotect_failure_keeps_map:
  assumes "config_ok c"
    and "int (length m) = STATIC_POOL_MAX_ENTRIES c"
    and "b = nat (alloc_size_blocks sz)"
    and "blocks_free m s b"
    and "\<forall>t < s. \<not> blocks_free m t b"
    and "mprotect (aligned_pool_start c + word_of_int (int s * STATIC_POOL_MIN_BLOCK_SIZE))
           (int b * STATIC_POOL_MIN_BLOCK_SIZE) prot \<noteq> 0"
  shows "lj_alloc_from_static_pool c mprotect sz prot m = Inr (0, m)"
proof (cases "alloc_size_blocks sz = 0")
  case True
  then show ?thesis by (simp add: lj_alloc_from_static_pool_def)
next
  case False
  let ?sb = "alloc_size_blocks sz"
  have "0 \<le> ?sb" by (simp only: alloc_size_blocks_ceil size_blocks_range)
  then have ib: "int b = ?sb" using assms(3) by simp
  define s0 where "s0 = (LEAST s. blocks_free m s b)"
  have "s0 \<le> s" unfolding s0_def using assms(4) by (rule Least_le)
  moreover have "blocks_free m s0 b" unfolding s0_def using assms(4) by (rule LeastI)
  with assms(5) have "\<not> s0 < s" by blast
  ultimately have s: "s0 = s" by simp
  from assms(4) have ex: "\<exists>s. blocks_free m s b" by blast
  from alloc_closed [OF assms(1,2), of mprotect sz prot] False ex
  have "lj_alloc_from_static_pool c mprotect sz prot m = alloc_grant c mprotect prot ?sb m (int s)"
    unfolding assms(3) [symmetric] s0_def [symmetric] s by simp
  with assms(6) show ?thesis
    by (simp add: alloc_grant_def ib)
qed

theorem mprotect_failure_keeps_map_witness:
  "blocks_free [1, 0, 0, 1, 0, 0, 0, 1] 1 2 \<and>
   lj_alloc_from_static_pool example_pool (\<lambda>a n prot. - 1) 131072 7 [1, 0, 0, 1, 0, 0, 0, 1]
     = Inr (0, [1, 0, 0, 1, 0, 0, 0, 1])"
proof -
  let ?m = "[1, 0, 0, 1, 0, 0, 0, 1] :: int list"
  have b: "2 = nat (alloc_size_blocks 131072)"
    by (simp add: alloc_size_blocks_def STATIC_POOL_BLOCK_SIZE_MASK_def)
  have f1: "blocks_free ?m 1 2" and f0: "\<not> blocks_free ?m 0 2"
    by code_simp+
  have first: "\<forall>t < 1. \<not> blocks_free ?m t 2"
    using f0 by simp
  have fails: "(- 1 :: int) \<noteq> 0" by simp
  from mprotect_failure_keeps_map [where c = example_pool and m = ?m and b = 2 and sz = 131072
      and s = 1 and mprotect = "\<lambda>a n prot. - 1" and prot = 7,
      OF example_pool_ok example_len b f1 first fails] f1
  show ?thesis by simp
qed

text \<open>
  C4. Every address returned other than \<^verbatim>\<open>NULL\<close> is a multiple of the block size, lies in
  the pool, and the whole granted range of \<open>size_blocks\<close> blocks ends within the pool.
\<close>

theorem granted_range_in_pool:
  assumes "config_ok c"
    and "int (length m) = STATIC_POOL_MAX_ENTRIES c"
    and "lj_alloc_from_static_pool c mprotect sz prot m = Inr (p, m')"
    and "p \<noteq> 0"
  shows "STATIC_POOL_MIN_BLOCK_SIZE dvd uint p \<and>
         uint (aligned_pool_start c) \<le> uint p \<and>
         uint p < uint (aligned_pool_start c) + STATIC_POOL_SIZE c \<and>
         0 < alloc_size_blocks sz \<and>
         uint p + alloc_size_blocks sz * STATIC_POOL_MIN_BLOCK_SIZE
           \<le> uint (aligned_pool_start c) + STATIC_POOL_SIZE c"
proof -
  let ?sb = "alloc_size_blocks sz"
  from alloc_success [OF assms] obtain s where f: "blocks_free m s (nat ?sb)"
    and b: "1 \<le> ?sb" and u: "uint p = uint (aligned_pool_start c) + int s * 65536"
    by blast
  have "s + nat ?sb \<le> length m" using f by (simp add: blocks_free_def)
  then have n: "int s + ?sb \<le> STATIC_POOL_MAX_ENTRIES c" using assms(2) b by linarith
  have "(int s + ?sb) * 65536 \<le> STATIC_POOL_MAX_ENTRIES c * 65536"
    using n by simp
  then have e: "int s * 65536 + ?sb * 65536 \<le> STATIC_POOL_SIZE c"
    using config_okD(7) [OF assms(1)] by (simp add: algebra_simps)
  have d: "65536 dvd uint p"
    unfolding u using aligned_pool_start_bounds(3) [OF assms(1)] by simp
  from d u e b show ?thesis by simp
qed

theorem granted_range_in_pool_witness:
  "lj_alloc_from_static_pool example_pool (\<lambda>a n prot. 0) 131072 7 [1, 0, 0, 1, 0, 0, 0, 1]
     = Inr (0x70020000, [1, 1, 1, 1, 0, 0, 0, 1]) \<and>
   65536 dvd uint (0x70020000 :: 32 word) \<and>
   uint (aligned_pool_start example_pool) \<le> uint (0x70020000 :: 32 word) \<and>
   uint (0x70020000 :: 32 word) + alloc_size_blocks 131072 * 65536
     \<le> uint (aligned_pool_start example_pool) + STATIC_POOL_SIZE example_pool"
proof -
  have nz: "(0x70020000 :: 32 word) \<noteq> 0" by simp
  from granted_range_in_pool [where m = "[1, 0, 0, 1, 0, 0, 0, 1]",
      OF example_pool_ok example_len example_grant nz] example_grant
  show ?thesis by simp
qed

text \<open>
  C5. A release whose range ends beyond the pool is to return a nonzero error. For the
  second block of the example pool and the size \<open>0xC0000000\<close>, which is 49152 blocks,
  the range ends far beyond the pool, but the bounds test of line 165 multiplies
  \<^verbatim>\<open>size_blocks * STATIC_POOL_MIN_BLOCK_SIZE\<close> as \<^verbatim>\<open>int\<close>, beyond \<^verbatim>\<open>INT_MAX\<close>: the call has no
  defined behaviour, and nothing makes it return 1. (With wrap-around the sum is
  \<open>0x30020000\<close>, below the end of the pool: the test lets the call through.)
\<close>

theorem release_beyond_pool_undefined:
  "config_ok example_pool \<and>
   int (length [0, 1, 0, 0, 0, 0, 0, 0 :: int]) = STATIC_POOL_MAX_ENTRIES example_pool \<and>
   release_size_blocks 0xC0000000 = 49152 \<and>
   uint (aligned_pool_start example_pool) + STATIC_POOL_SIZE example_pool
     < uint (0x70020000 :: 32 word) + release_size_blocks 0xC0000000 * STATIC_POOL_MIN_BLOCK_SIZE \<and>
   2 ^ 31 \<le> release_size_blocks 0xC0000000 * STATIC_POOL_MIN_BLOCK_SIZE \<and>
   lj_release_to_static_pool example_pool 0x70020000 0xC0000000 [0, 1, 0, 0, 0, 0, 0, 0]
     = Inl UndefinedBehaviour"
proof -
  have sb: "release_size_blocks 0xC0000000 = 49152"
    by (simp add: release_size_blocks_def STATIC_POOL_BLOCK_SIZE_MASK_def)
  have h: "uint (aligned_pool_start example_pool) + STATIC_POOL_SIZE example_pool
     < uint (0x70020000 :: 32 word) + release_size_blocks 0xC0000000 * STATIC_POOL_MIN_BLOCK_SIZE"
    by (simp add: example_pool_start example_pool_size sb)
  have o: "2 ^ 31 \<le> release_size_blocks 0xC0000000 * STATIC_POOL_MIN_BLOCK_SIZE"
    by (simp add: sb)
  have r: "lj_release_to_static_pool example_pool 0x70020000 0xC0000000 [0, 1, 0, 0, 0, 0, 0, 0]
     = Inl UndefinedBehaviour"
    by code_simp
  from example_pool_ok example_len sb h o r show ?thesis by blast
qed

text \<open>
  C6. For an address and size granted by an earlier call, in whatever state the map is
  now, releasing twice returns 0 both times and the second release leaves the map as the
  first one left it.
\<close>

theorem release_twice:
  assumes "config_ok c"
    and "int (length m0) = STATIC_POOL_MAX_ENTRIES c"
    and "lj_alloc_from_static_pool c mprotect sz prot m0 = Inr (p, m0')"
    and "p \<noteq> 0"
    and "int (length m) = STATIC_POOL_MAX_ENTRIES c"
  shows "\<exists>m1. lj_release_to_static_pool c p sz m = Inr (0, m1) \<and>
              lj_release_to_static_pool c p sz m1 = Inr (0, m1)"
proof -
  from alloc_success [OF assms(1-4)] obtain s
    where f: "blocks_free m0 s (nat (alloc_size_blocks sz))"
      and b: "1 \<le> alloc_size_blocks sz"
      and u: "uint p = uint (aligned_pool_start c) + int s * 65536"
    by blast
  have e: "release_size_blocks sz = alloc_size_blocks sz"
    by (simp only: release_size_blocks_ceil alloc_size_blocks_ceil)
  let ?b = "nat (release_size_blocks sz)"
  have "s + nat (alloc_size_blocks sz) \<le> length m0" using f by (simp add: blocks_free_def)
  then have fit: "int s + release_size_blocks sz \<le> STATIC_POOL_MAX_ENTRIES c"
    using assms(2) b e by linarith
  have sb: "1 \<le> release_size_blocks sz" using b e by simp
  let ?m1 = "set_blocks m s ?b 0"
  have 1: "lj_release_to_static_pool c p sz m = Inr (0, ?m1)"
    using release_in_range [OF assms(1,5) _ sb fit u] by simp
  have l: "int (length ?m1) = STATIC_POOL_MAX_ENTRIES c" using assms(5) by simp
  have "set_blocks ?m1 s ?b 0 = ?m1"
    by (rule nth_equalityI) (simp_all add: nth_set_blocks)
  then have 2: "lj_release_to_static_pool c p sz ?m1 = Inr (0, ?m1)"
    using release_in_range [OF assms(1) l _ sb fit u] by simp
  from 1 2 show ?thesis by blast
qed

theorem release_twice_witness:
  "lj_alloc_from_static_pool example_pool (\<lambda>a n prot. 0) 131072 7 [1, 0, 0, 1, 0, 0, 0, 1]
     = Inr (0x70020000, [1, 1, 1, 1, 0, 0, 0, 1]) \<and>
   (\<exists>m1. lj_release_to_static_pool example_pool 0x70020000 131072 [1, 1, 1, 1, 0, 0, 0, 1]
            = Inr (0, m1) \<and>
          lj_release_to_static_pool example_pool 0x70020000 131072 m1 = Inr (0, m1)) \<and>
   lj_release_to_static_pool example_pool 0x70020000 131072 [1, 1, 1, 1, 0, 0, 0, 1]
     = Inr (0, [1, 0, 0, 1, 0, 0, 0, 1])"
proof -
  have nz: "(0x70020000 :: 32 word) \<noteq> 0" by simp
  have e: "lj_release_to_static_pool example_pool 0x70020000 131072 [1, 1, 1, 1, 0, 0, 0, 1]
     = Inr (0, [1, 0, 0, 1, 0, 0, 0, 1])"
    by code_simp
  from release_twice [where m = "[1, 1, 1, 1, 0, 0, 0, 1]",
      OF example_pool_ok example_len example_grant nz example_len] example_grant e
  show ?thesis by (simp only:)
qed

text \<open>
  C7. Both functions round the size up to whole blocks: the count is the least number
  of blocks that holds the size. A request of half a block takes exactly one block, and a
  release with the same size gives exactly that block back. Size 0 gives \<^verbatim>\<open>NULL\<close>, and
  1 from the release, with the map untouched.
\<close>

theorem size_rounding:
  assumes "config_ok c"
    and "int (length m) = STATIC_POOL_MAX_ENTRIES c"
  shows "uint sz \<le> alloc_size_blocks sz * STATIC_POOL_MIN_BLOCK_SIZE \<and>
         alloc_size_blocks sz * STATIC_POOL_MIN_BLOCK_SIZE < uint sz + STATIC_POOL_MIN_BLOCK_SIZE \<and>
         release_size_blocks sz = alloc_size_blocks sz \<and>
         (alloc_size_blocks sz = 0 \<longleftrightarrow> sz = 0) \<and>
         lj_alloc_from_static_pool c mprotect 0 prot m = Inr (0, m) \<and>
         lj_release_to_static_pool c p 0 m = Inr (1, m) \<and>
         (\<forall>q m'. lj_alloc_from_static_pool c mprotect 32768 prot m = Inr (q, m') \<and> q \<noteq> 0 \<longrightarrow>
            (\<exists>s < length m. m ! s = 0 \<and> m' = m[s := 1] \<and>
               lj_release_to_static_pool c q 32768 m' = Inr (0, m)))"
proof -
  have 1: "uint sz \<le> alloc_size_blocks sz * STATIC_POOL_MIN_BLOCK_SIZE \<and>
      alloc_size_blocks sz * STATIC_POOL_MIN_BLOCK_SIZE < uint sz + STATIC_POOL_MIN_BLOCK_SIZE"
    unfolding alloc_size_blocks_ceil using ceil_div_block_bounds [of "uint sz"] by simp
  have 2: "release_size_blocks sz = alloc_size_blocks sz"
    by (simp only: release_size_blocks_ceil alloc_size_blocks_ceil)
  have 3: "alloc_size_blocks sz = 0 \<longleftrightarrow> sz = 0"
    by (simp only: alloc_size_blocks_ceil size_blocks_range)
  have "alloc_size_blocks 0 = 0" by (simp only: alloc_size_blocks_ceil size_blocks_range)
  then have 4: "lj_alloc_from_static_pool c mprotect 0 prot m = Inr (0, m)"
    by (simp add: lj_alloc_from_static_pool_def)
  have "release_size_blocks 0 = 0" by (simp only: release_size_blocks_ceil size_blocks_range)
  then have 5: "lj_release_to_static_pool c p 0 m = Inr (1, m)"
    by (simp add: lj_release_to_static_pool_def)
  have 6: "\<exists>s < length m. m ! s = 0 \<and> m' = m[s := 1] \<and>
      lj_release_to_static_pool c q 32768 m' = Inr (0, m)"
    if r: "lj_alloc_from_static_pool c mprotect 32768 prot m = Inr (q, m')" and q: "q \<noteq> 0"
    for q m'
  proof -
    from alloc_success [OF assms r q] obtain s
      where f: "blocks_free m s (Suc 0)"
        and u: "uint q = uint (aligned_pool_start c) + int s * 65536"
        and m': "m' = set_blocks m s (Suc 0) 1"
      by (auto simp: half_block)
    from f have s: "s < length m" and z: "m ! s = 0" by (simp_all add: blocks_free_def)
    from m' s have e: "m' = m[s := 1]" by (simp add: set_blocks_one)
    have l: "int (length m') = STATIC_POOL_MAX_ENTRIES c" using e assms(2) by simp
    have fit: "int s + release_size_blocks 32768 \<le> STATIC_POOL_MAX_ENTRIES c"
      using s assms(2) by (simp add: half_block)
    have "lj_release_to_static_pool c q 32768 m' = Inr (0, set_blocks m' s (Suc 0) 0)"
      using release_in_range [OF assms(1) l _ _ fit u] by (simp add: half_block)
    moreover have "set_blocks m' s (Suc 0) 0 = m"
      using s z by (simp add: set_blocks_one e list_update_same_conv)
    ultimately show ?thesis using s z e by auto
  qed
  from 1 2 3 4 5 6 show ?thesis by blast
qed

theorem size_rounding_witness:
  "alloc_size_blocks 32768 = 1 \<and> release_size_blocks 32768 = 1 \<and>
   lj_alloc_from_static_pool example_pool (\<lambda>a n prot. 0) 32768 7 [1, 0, 0, 1, 0, 0, 0, 1]
     = Inr (0x70020000, [1, 1, 0, 1, 0, 0, 0, 1]) \<and>
   lj_release_to_static_pool example_pool 0x70020000 32768 [1, 1, 0, 1, 0, 0, 0, 1]
     = Inr (0, [1, 0, 0, 1, 0, 0, 0, 1]) \<and>
   lj_alloc_from_static_pool example_pool (\<lambda>a n prot. 0) 0 7 [1, 0, 0, 1, 0, 0, 0, 1]
     = Inr (0, [1, 0, 0, 1, 0, 0, 0, 1]) \<and>
   lj_release_to_static_pool example_pool 0x70020000 0 [1, 0, 0, 1, 0, 0, 0, 1]
     = Inr (1, [1, 0, 0, 1, 0, 0, 0, 1])"
proof -
  let ?m = "[1, 0, 0, 1, 0, 0, 0, 1] :: int list"
  note th = size_rounding [where c = example_pool and m = ?m and sz = 32768
      and mprotect = "\<lambda>a n prot. 0" and prot = 7 and p = "0x70020000",
      OF example_pool_ok example_len]
  have a: "lj_alloc_from_static_pool example_pool (\<lambda>a n prot. 0) 32768 7 ?m
     = Inr (0x70020000, [1, 1, 0, 1, 0, 0, 0, 1])"
    by code_simp
  have nz: "(0x70020000 :: 32 word) \<noteq> 0" by simp
  from th a nz have "\<exists>s < length ?m. ?m ! s = 0 \<and> [1, 1, 0, 1, 0, 0, 0, 1] = ?m[s := 1] \<and>
      lj_release_to_static_pool example_pool 0x70020000 32768 [1, 1, 0, 1, 0, 0, 0, 1]
        = Inr (0, ?m)"
    by blast
  then have r: "lj_release_to_static_pool example_pool 0x70020000 32768 [1, 1, 0, 1, 0, 0, 0, 1]
      = Inr (0, ?m)"
    by blast
  from th have z: "lj_alloc_from_static_pool example_pool (\<lambda>a n prot. 0) 0 7 ?m = Inr (0, ?m)"
    by blast
  from th have y: "lj_release_to_static_pool example_pool 0x70020000 0 ?m = Inr (1, ?m)"
    by blast
  from a r z y half_block show ?thesis by (simp only:)
qed

text \<open>
  C9. There is no provenance check: for any map, a release of a block-aligned address
  in the pool with a positive size whose range ends within the pool returns 0 and clears
  exactly the blocks of that range.
\<close>

theorem release_no_provenance:
  assumes "config_ok c"
    and "int (length m) = STATIC_POOL_MAX_ENTRIES c"
    and "STATIC_POOL_MIN_BLOCK_SIZE dvd uint p"
    and "uint (aligned_pool_start c) \<le> uint p"
    and "uint p < uint (aligned_pool_start c) + STATIC_POOL_SIZE c"
    and "sz \<noteq> 0"
    and "uint p + release_size_blocks sz * STATIC_POOL_MIN_BLOCK_SIZE
           \<le> uint (aligned_pool_start c) + STATIC_POOL_SIZE c"
  shows "\<exists>index. uint p = uint (aligned_pool_start c) + int index * STATIC_POOL_MIN_BLOCK_SIZE \<and>
           index + nat (release_size_blocks sz) \<le> length m \<and>
           lj_release_to_static_pool c p sz m
             = Inr (0, set_blocks m index (nat (release_size_blocks sz)) 0)"
proof -
  let ?sb = "release_size_blocks sz"
  let ?a = "aligned_pool_start c"
  define i where "i = (uint p - uint ?a) div 65536"
  have pa: "65536 dvd uint p" using assms(3) by simp
  have p: "uint p = uint ?a + i * 65536"
    unfolding i_def by (rule aligned_offset [OF pa aligned_pool_start_bounds(3) [OF assms(1)]])
  from p assms(4) have i0: "0 \<le> i" by simp
  from assms(6) release_size_blocks_range [of sz] have sb: "1 \<le> ?sb" by linarith
  from assms(7) p have "(i + ?sb) * 65536 \<le> STATIC_POOL_SIZE c"
    by (simp add: algebra_simps)
  with config_okD(8) [OF assms(1)]
  have "(i + ?sb) * 65536 < (STATIC_POOL_MAX_ENTRIES c + 1) * 65536"
    by (simp add: algebra_simps)
  then have "i + ?sb < STATIC_POOL_MAX_ENTRIES c + 1" by simp
  then have fit: "i + ?sb \<le> STATIC_POOL_MAX_ENTRIES c" by simp
  have r: "lj_release_to_static_pool c p sz m = Inr (0, set_blocks m (nat i) (nat ?sb) 0)"
    by (rule release_in_range [OF assms(1,2) i0 sb fit p])
  have "uint p = uint ?a + int (nat i) * STATIC_POOL_MIN_BLOCK_SIZE"
    using p i0 by simp
  moreover have "nat i + nat ?sb \<le> length m"
    using fit i0 sb assms(2) by linarith
  ultimately show ?thesis using r by blast
qed

theorem release_no_provenance_witness:
  "STATIC_POOL_MIN_BLOCK_SIZE dvd uint (0x70030000 :: 32 word) \<and>
   uint (0x70030000 :: 32 word) + release_size_blocks 131072 * STATIC_POOL_MIN_BLOCK_SIZE
     \<le> uint (aligned_pool_start example_pool) + STATIC_POOL_SIZE example_pool \<and>
   (\<exists>index. uint (0x70030000 :: 32 word)
        = uint (aligned_pool_start example_pool) + int index * STATIC_POOL_MIN_BLOCK_SIZE \<and>
      lj_release_to_static_pool example_pool 0x70030000 131072 [1, 1, 1, 1, 1, 1, 1, 1]
        = Inr (0, set_blocks [1, 1, 1, 1, 1, 1, 1, 1] index (nat (release_size_blocks 131072)) 0)) \<and>
   lj_release_to_static_pool example_pool 0x70030000 131072 [1, 1, 1, 1, 1, 1, 1, 1]
     = Inr (0, [1, 1, 0, 0, 1, 1, 1, 1])"
proof -
  have sb: "release_size_blocks 131072 = 2"
    by (simp add: release_size_blocks_def STATIC_POOL_BLOCK_SIZE_MASK_def)
  have h3: "STATIC_POOL_MIN_BLOCK_SIZE dvd uint (0x70030000 :: 32 word)" by simp
  have h4: "uint (aligned_pool_start example_pool) \<le> uint (0x70030000 :: 32 word)"
    by (simp add: example_pool_start)
  have h5: "uint (0x70030000 :: 32 word)
      < uint (aligned_pool_start example_pool) + STATIC_POOL_SIZE example_pool"
    by (simp add: example_pool_start example_pool_size)
  have h6: "(131072 :: 32 word) \<noteq> 0" by simp
  have h7: "uint (0x70030000 :: 32 word) + release_size_blocks 131072 * STATIC_POOL_MIN_BLOCK_SIZE
      \<le> uint (aligned_pool_start example_pool) + STATIC_POOL_SIZE example_pool"
    by (simp add: example_pool_start example_pool_size sb)
  have e: "lj_release_to_static_pool example_pool 0x70030000 131072 [1, 1, 1, 1, 1, 1, 1, 1]
     = Inr (0, [1, 1, 0, 0, 1, 1, 1, 1])"
    by code_simp
  from release_no_provenance [where m = "[1, 1, 1, 1, 1, 1, 1, 1]",
      OF example_pool_ok example_len h3 h4 h5 h6 h7] h3 h7 e
  show ?thesis by blast
qed


end
